theory Spec2Isabelle
  imports Main
begin

section \<open>Go values used by the router\<close>

text \<open>
  Go strings are byte sequences, modelled as \<open>string\<close> (a list of 8-bit characters).
  Go's \<open>int\<close> is modelled as \<open>int\<close>: no length in this program comes near the
  64-bit bound, but \<open>n - 1\<close> may be negative, which \<open>nat\<close> would hide.
  A run-time panic is a value of type \<open>panic\<close>; a function that may panic returns
  \<open>panic + 'a\<close> with \<open>Inl\<close> for the panic.
\<close>

datatype panic =
    IndexOutOfRange
  | SliceBoundsOutOfRange
  | Panic string

definition len :: "'a list \<Rightarrow> int" where
  "len xs = int (length xs)"

text \<open>\<open>xs[i]\<close>: panics unless \<open>0 \<le> i < len(xs)\<close>.\<close>

definition index_at :: "'a list \<Rightarrow> int \<Rightarrow> panic + 'a" where
  "index_at xs i =
     (if 0 \<le> i \<and> i < len xs then Inr (xs ! nat i) else Inl IndexOutOfRange)"

text \<open>\<open>xs[:j]\<close>: panics unless \<open>0 \<le> j \<le> len(xs)\<close> (the slices cut here have
  capacity equal to their length).\<close>

definition slice_to :: "'a list \<Rightarrow> int \<Rightarrow> panic + 'a list" where
  "slice_to xs j =
     (if 0 \<le> j \<and> j \<le> len xs then Inr (take (nat j) xs) else Inl SliceBoundsOutOfRange)"

text \<open>\<open>xs[i:]\<close>: panics unless \<open>0 \<le> i \<le> len(xs)\<close>.\<close>

definition slice_from :: "'a list \<Rightarrow> int \<Rightarrow> panic + 'a list" where
  "slice_from xs i =
     (if 0 \<le> i \<and> i \<le> len xs then Inr (drop (nat i) xs) else Inl SliceBoundsOutOfRange)"

subsection \<open>The functions of package strings, at a one-byte separator\<close>

text \<open>\<open>strings.Contains(s, string(c))\<close>.\<close>

definition strings_Contains :: "string \<Rightarrow> char \<Rightarrow> bool" where
  "strings_Contains s c = (c \<in> set s)"

text \<open>\<open>strings.Count(s, string(c))\<close>.\<close>

fun strings_Count :: "string \<Rightarrow> char \<Rightarrow> int" where
  "strings_Count [] c = 0"
| "strings_Count (x # xs) c = (if x = c then 1 else 0) + strings_Count xs c"

text \<open>\<open>strings.Index(s, string(c))\<close>: the first position of \<open>c\<close>, or \<open>-1\<close>.\<close>

fun strings_Index :: "string \<Rightarrow> char \<Rightarrow> int" where
  "strings_Index [] c = -1"
| "strings_Index (x # xs) c =
     (if x = c then 0
      else (let r = strings_Index xs c in if r < 0 then -1 else r + 1))"

text \<open>\<open>strings.Split(s, string(c))\<close>: the pieces between the separators, one more
  than there are separators; the empty string splits into one empty piece. The result
  is never the empty list, so the first branch of the \<open>case\<close> is never taken.\<close>

fun strings_Split :: "string \<Rightarrow> char \<Rightarrow> string list" where
  "strings_Split [] c = [[]]"
| "strings_Split (x # xs) c =
     (if x = c then [] # strings_Split xs c
      else (case strings_Split xs c of
              [] \<Rightarrow> [[x]]
            | seg # segs \<Rightarrow> (x # seg) # segs))"

text \<open>\<open>strings.HasPrefix(s, prefix)\<close>.\<close>

definition strings_HasPrefix :: "string \<Rightarrow> string \<Rightarrow> bool" where
  "strings_HasPrefix s pre = (length s \<ge> length pre \<and> take (length pre) s = pre)"

section \<open>The pattern matcher\<close>

text \<open>\<open>pathMatchFlat\<close>: a pattern with no capture. The caller guarantees a
  non-empty pattern; on an empty one \<open>pattern[n-1]\<close> panics.\<close>

definition pathMatchFlat :: "string \<Rightarrow> string \<Rightarrow> panic + bool" where
  "pathMatchFlat pattern path =
     (let n = len pattern in
      case index_at pattern (n - 1) of
        Inl e \<Rightarrow> Inl e
      | Inr c \<Rightarrow>
          if c \<noteq> CHR ''/'' then Inr (pattern = path)
          else if len path \<ge> n then
            (case slice_to path n of
               Inl e \<Rightarrow> Inl e
             | Inr pre \<Rightarrow> Inr (pre = pattern))
          else Inr False)"

text \<open>The loop of \<open>pathMatchSplat\<close> over the (possibly cut) pattern segments.
  \<open>pattern'\<close> and \<open>path'\<close> stand for the source's \<open>_pattern\<close> and \<open>_path\<close>;
  \<open>i\<close> is the range index, and \<open>_path[i]\<close> is read only in the branches that
  read it.\<close>

fun splat_loop :: "string list \<Rightarrow> string list \<Rightarrow> int \<Rightarrow> panic + bool" where
  "splat_loop [] path' i = Inr True"
| "splat_loop (item # rest) path' i =
     (let index = strings_Index item CHR '':'' in
      if index = -1 then
        (case index_at path' i of
           Inl e \<Rightarrow> Inl e
         | Inr seg \<Rightarrow> if item \<noteq> seg then Inr False else splat_loop rest path' (i + 1))
      else if index = 0 then splat_loop rest path' (i + 1)
      else
        (case slice_to item index of
           Inl e \<Rightarrow> Inl e
         | Inr prefix \<Rightarrow>
            (case index_at path' i of
               Inl e \<Rightarrow> Inl e
             | Inr seg \<Rightarrow>
                 if \<not> strings_HasPrefix seg prefix then Inr False
                 else splat_loop rest path' (i + 1))))"

text \<open>\<open>pathMatchSplat\<close>: a pattern with captures. For a pattern ending in a slash
  the count of slashes is decremented and the segment list is cut to that many
  entries.\<close>

definition pathMatchSplat :: "string \<Rightarrow> string \<Rightarrow> panic + bool" where
  "pathMatchSplat pattern path =
     (let pattern' = strings_Split pattern CHR ''/'';
          slashes = strings_Count pattern CHR ''/''
      in
      case index_at pattern (len pattern - 1) of
        Inl e \<Rightarrow> Inl e
      | Inr c \<Rightarrow>
         (case (if c = CHR ''/'' then
                  (case slice_to pattern' (slashes - 1) of
                     Inl e \<Rightarrow> Inl e
                   | Inr trimmed \<Rightarrow> Inr (True, slashes - 1, trimmed))
                else Inr (False, slashes, pattern')) of
            Inl e \<Rightarrow> Inl e
          | Inr (leadingSlash, slashes, pattern') \<Rightarrow>
             (let path' = strings_Split path CHR ''/'' in
              if leadingSlash \<and> len path' \<le> slashes then Inr False
              else if \<not> leadingSlash \<and> strings_Count path CHR ''/'' \<noteq> slashes then Inr False
              else splat_loop pattern' path' 0)))"

definition pathMatch :: "string \<Rightarrow> string \<Rightarrow> panic + bool" where
  "pathMatch pattern path =
     (if len pattern = 0 then Inr False
      else if strings_Contains pattern CHR '':'' then pathMatchSplat pattern path
      else pathMatchFlat pattern path)"

section \<open>Extracting the captures\<close>

text \<open>\<open>url.Values\<close> is a map from a name to the list of its values; \<open>Add\<close>
  appends to the list of the name.\<close>

type_synonym Values = "string \<rightharpoonup> string list"

definition Values_Add :: "Values \<Rightarrow> string \<Rightarrow> string \<Rightarrow> Values" where
  "Values_Add v key val = v(key \<mapsto> (case v key of None \<Rightarrow> [] | Some vs \<Rightarrow> vs) @ [val])"

text \<open>The loop of \<open>parseSplats\<close>, over all the segments of the pattern. The
  arguments of \<open>values.Add(item[index:], _path[i][index:])\<close> are evaluated from left
  to right.\<close>

fun parse_loop :: "string list \<Rightarrow> string list \<Rightarrow> int \<Rightarrow> Values \<Rightarrow> panic + Values" where
  "parse_loop [] path' i values = Inr values"
| "parse_loop (item # rest) path' i values =
     (let index = strings_Index item CHR '':'' in
      if index = -1 then parse_loop rest path' (i + 1) values
      else if index = 0 then
        (case index_at path' i of
           Inl e \<Rightarrow> Inl e
         | Inr seg \<Rightarrow> parse_loop rest path' (i + 1) (Values_Add values item seg))
      else
        (case slice_from item index of
           Inl e \<Rightarrow> Inl e
         | Inr name \<Rightarrow>
            (case index_at path' i of
               Inl e \<Rightarrow> Inl e
             | Inr seg \<Rightarrow>
                (case slice_from seg index of
                   Inl e \<Rightarrow> Inl e
                 | Inr val \<Rightarrow> parse_loop rest path' (i + 1) (Values_Add values name val)))))"

text \<open>\<open>parseSplats\<close>: \<open>None\<close> is the nil map.\<close>

definition parseSplats :: "string \<Rightarrow> string \<Rightarrow> panic + Values option" where
  "parseSplats pattern path =
     (let pattern' = strings_Split pattern CHR ''/'';
          path' = strings_Split path CHR ''/''
      in
      if \<not> strings_Contains pattern CHR '':'' then Inr None
      else
        (case parse_loop pattern' path' 0 Map.empty of
           Inl e \<Rightarrow> Inl e
         | Inr values \<Rightarrow> Inr (Some values)))"

section \<open>The registry\<close>

text \<open>A handler is opaque to the router. \<open>'h\<close> is the type of the values the caller
  supplies: \<open>Custom\<close> is a caller's \<open>http.Handler\<close>, \<open>HandlerFunc\<close> the adapter
  around a caller's function, \<open>RedirectHandler url code\<close> and \<open>NotFoundHandler\<close>
  are the two handlers of net/http the router makes itself. A nil handler is
  \<open>None\<close> of \<open>'h Handler option\<close>.\<close>

datatype 'h Handler =
    Custom 'h
  | HandlerFunc 'h
  | RedirectHandler string int
  | NotFoundHandler

definition StatusMovedPermanently :: int where
  "StatusMovedPermanently = 301"

record 'h muxEntry =
  explicit :: bool
  h :: "'h Handler option"

text \<open>\<open>ServeMux\<close>: the map \<open>m\<close>. The lock \<open>mu\<close> is not modelled: every method
  holds it from its first to its last statement.\<close>

type_synonym 'h ServeMux = "string \<rightharpoonup> 'h muxEntry"

definition NewServeMux :: "'h ServeMux" where
  "NewServeMux = Map.empty"

text \<open>\<open>mux.m[k]\<close>: the zero entry for a key that is not in the map.\<close>

definition map_get :: "'h ServeMux \<Rightarrow> string \<Rightarrow> 'h muxEntry" where
  "map_get mux k =
     (case mux k of None \<Rightarrow> \<lparr>explicit = False, h = None\<rparr> | Some e \<Rightarrow> e)"

text \<open>Go ranges over a map in an order it does not specify, each key once: the loop of
  \<open>match\<close> takes the order as the list \<open>ks\<close>, and \<open>range_order\<close> says that a list
  is such an order.\<close>

definition range_order :: "'h ServeMux \<Rightarrow> string list \<Rightarrow> bool" where
  "range_order mux ks = (distinct ks \<and> set ks = dom mux)"

fun match_loop ::
  "'h ServeMux \<Rightarrow> string list \<Rightarrow> string \<Rightarrow> int \<times> string \<times> 'h Handler option
     \<Rightarrow> panic + (int \<times> string \<times> 'h Handler option)" where
  "match_loop mux [] path st = Inr st"
| "match_loop mux (k # ks) path (n, pattern, hdl) =
     (let v = map_get mux k in
      case pathMatch k path of
        Inl e \<Rightarrow> Inl e
      | Inr matched \<Rightarrow>
          if \<not> matched then match_loop mux ks path (n, pattern, hdl)
          else if hdl = None \<or> len k > n then match_loop mux ks path (len k, k, h v)
          else match_loop mux ks path (n, pattern, hdl))"

definition match ::
  "'h ServeMux \<Rightarrow> string list \<Rightarrow> string \<Rightarrow> panic + (string \<times> 'h Handler option)" where
  "match mux ks path =
     (case match_loop mux ks path (0, [], None) of
        Inl e \<Rightarrow> Inl e
      | Inr (n, pattern, hdl) \<Rightarrow> Inr (pattern, hdl))"

text \<open>The request, as far as the router reads and writes it.\<close>

record Request =
  Method :: string
  Host :: string
  URL_Path :: string
  URL_RawQuery :: string

text \<open>\<open>handler\<close>: the handler for the request and the request as it leaves it.
  \<open>Encode\<close> is \<open>url.Values.Encode\<close> of net/url; \<open>ks\<close> and \<open>ks'\<close> are the
  orders of the two scans of the map.\<close>

definition handler ::
  "(Values \<Rightarrow> string) \<Rightarrow> 'h ServeMux \<Rightarrow> string list \<Rightarrow> string list \<Rightarrow> Request
     \<Rightarrow> panic + ('h Handler \<times> Request)" where
  "handler Encode mux ks ks' r =
     (case match mux ks (Host r @ URL_Path r) of
        Inl e \<Rightarrow> Inl e
      | Inr (pattern, hdl) \<Rightarrow>
         (case (if hdl = None then match mux ks' (URL_Path r) else Inr (pattern, hdl)) of
            Inl e \<Rightarrow> Inl e
          | Inr (pattern, hdl) \<Rightarrow>
             (case hdl of
                None \<Rightarrow> Inr (NotFoundHandler, r)
              | Some found \<Rightarrow>
                 (case parseSplats pattern (URL_Path r) of
                    Inl e \<Rightarrow> Inl e
                  | Inr None \<Rightarrow> Inr (found, r)
                  | Inr (Some params) \<Rightarrow>
                      Inr (found, r\<lparr>URL_RawQuery := Encode params @ ''&'' @ URL_RawQuery r\<rparr>)))))"

text \<open>\<open>cleanPath\<close>. \<open>Clean\<close> is \<open>path.Clean\<close> of the standard library.\<close>

definition cleanPath :: "(string \<Rightarrow> string) \<Rightarrow> string \<Rightarrow> panic + string" where
  "cleanPath Clean p =
     (if p = [] then Inr ''/''
      else
        (case index_at p 0 of
           Inl e \<Rightarrow> Inl e
         | Inr c \<Rightarrow>
            (let p = (if c \<noteq> CHR ''/'' then ''/'' @ p else p);
                 np = Clean p
             in
             case index_at p (len p - 1) of
               Inl e \<Rightarrow> Inl e
             | Inr d \<Rightarrow> Inr (if d = CHR ''/'' \<and> np \<noteq> ''/'' then np @ ''/'' else np))))"

text \<open>The response writer: the header map and the status written, if any.\<close>

record ResponseWriter =
  Header :: "string \<rightharpoonup> string"
  Status :: "int option"

text \<open>What \<open>ServeHTTP\<close> ends in: it has written the response itself, or it has
  called the \<open>ServeHTTP\<close> of a handler with the writer and the request.\<close>

datatype 'h Outcome =
    Responded ResponseWriter
  | Dispatched "'h Handler" ResponseWriter Request

definition ServeHTTP ::
  "(string \<Rightarrow> string) \<Rightarrow> (Values \<Rightarrow> string) \<Rightarrow> 'h ServeMux \<Rightarrow> string list \<Rightarrow> string list
     \<Rightarrow> ResponseWriter \<Rightarrow> Request \<Rightarrow> panic + 'h Outcome" where
  "ServeHTTP Clean Encode mux ks ks' w r =
     (case (if Method r \<noteq> ''CONNECT'' then
              (case cleanPath Clean (URL_Path r) of
                 Inl e \<Rightarrow> Inl e
               | Inr p \<Rightarrow>
                   if p \<noteq> URL_Path r then
                     Inr (Some (w\<lparr>Header := (Header w)(''Location'' \<mapsto> p),
                                  Status := Some StatusMovedPermanently\<rparr>))
                   else Inr None)
            else Inr None) of
        Inl e \<Rightarrow> Inl e
      | Inr (Some w') \<Rightarrow> Inr (Responded w')
      | Inr None \<Rightarrow>
         (case handler Encode mux ks ks' r of
            Inl e \<Rightarrow> Inl e
          | Inr (found, r') \<Rightarrow> Inr (Dispatched found w r')))"

text \<open>\<open>xs[i:j]\<close>: panics unless \<open>0 \<le> i \<le> j \<le> len(xs)\<close>.\<close>

definition slice :: "'a list \<Rightarrow> int \<Rightarrow> int \<Rightarrow> panic + 'a list" where
  "slice xs i j =
     (if 0 \<le> i \<and> i \<le> j \<and> j \<le> len xs then Inr (take (nat (j - i)) (drop (nat i) xs))
      else Inl SliceBoundsOutOfRange)"

text \<open>\<open>Handle\<close>: the panic, if any, and the registry the call leaves behind.\<close>

definition Handle ::
  "'h ServeMux \<Rightarrow> string \<Rightarrow> 'h Handler option \<Rightarrow> panic option \<times> 'h ServeMux" where
  "Handle mux pattern hdl =
     (if pattern = [] then (Some (Panic (''http: invalid pattern '' @ pattern)), mux)
      else if hdl = None then (Some (Panic ''http: nil handler''), mux)
      else if explicit (map_get mux pattern) then
        (Some (Panic (''http: multiple registrations for '' @ pattern)), mux)
      else
        (let mux = mux(pattern \<mapsto> \<lparr>explicit = True, h = hdl\<rparr>);
             n = len pattern
         in
         if n > 0 then
           (case index_at pattern (n - 1) of
              Inl e \<Rightarrow> (Some e, mux)
            | Inr c \<Rightarrow>
               if c = CHR ''/'' then
                 (case slice pattern 0 (n - 1) of
                    Inl e \<Rightarrow> (Some e, mux)
                  | Inr stripped \<Rightarrow>
                     if \<not> explicit (map_get mux stripped) then
                       (None, mux(stripped \<mapsto>
                          \<lparr>explicit = False,
                           h = Some (RedirectHandler pattern StatusMovedPermanently)\<rparr>))
                     else (None, mux))
               else (None, mux))
         else (None, mux)))"

definition HandleFunc ::
  "'h ServeMux \<Rightarrow> string \<Rightarrow> 'h \<Rightarrow> panic option \<times> 'h ServeMux" where
  "HandleFunc mux pattern f = Handle mux pattern (Some (HandlerFunc f))"

text \<open>The registrations a program makes, one after the other from a new registry. A
  call that panics leaves the registry as it was.\<close>

datatype 'h registration =
    CallHandle string "'h Handler option"
  | CallHandleFunc string 'h

fun register :: "'h ServeMux \<Rightarrow> 'h registration \<Rightarrow> 'h ServeMux" where
  "register mux (CallHandle pattern hdl) = snd (Handle mux pattern hdl)"
| "register mux (CallHandleFunc pattern f) = snd (HandleFunc mux pattern f)"

definition registered :: "'h registration list \<Rightarrow> 'h ServeMux" where
  "registered calls = foldl register NewServeMux calls"

section \<open>Facts about the primitives\<close>

lemma strings_Count_nonneg: "0 \<le> strings_Count s c"
  by (induction s) auto

lemma strings_Split_nonempty: "strings_Split s c \<noteq> []"
  by (induction s) (auto split: list.splits)

lemma len_strings_Split: "len (strings_Split s c) = strings_Count s c + 1"
proof (induction s)
  case Nil
  show ?case by (simp add: len_def)
next
  case (Cons x xs)
  then show ?case
    using strings_Split_nonempty [of xs c] by (auto simp: len_def split: list.splits)
qed

lemma strings_Index_lower: "- 1 \<le> strings_Index s c"
  by (induction s) (auto simp: Let_def)

lemma strings_Index_upper: "strings_Index s c < len s"
  by (induction s) (auto simp: Let_def len_def)

lemma strings_Index_absent: "strings_Index s c = - 1 \<longleftrightarrow> c \<notin> set s"
proof (induction s)
  case Nil
  show ?case by simp
next
  case (Cons x xs)
  have "- 1 \<le> strings_Index xs c" by (rule strings_Index_lower)
  then have "strings_Index xs c < 0 \<longleftrightarrow> strings_Index xs c = - 1" by linarith
  moreover have "strings_Index xs c + 1 \<noteq> - 1"
    using \<open>- 1 \<le> strings_Index xs c\<close> by linarith
  ultimately show ?case using Cons.IH by (simp add: Let_def)
qed

lemma strings_Count_last:
  "s \<noteq> [] \<Longrightarrow> last s = c \<Longrightarrow> 1 \<le> strings_Count s c"
  using strings_Count_nonneg [of _ c]
  by (induction s) (auto simp: add_increasing2)

lemma index_at_last: "s \<noteq> [] \<Longrightarrow> index_at s (len s - 1) = Inr (last s)"
  by (simp add: index_at_def len_def last_conv_nth nat_diff_distrib')

lemma pathMatchFlat_prefix:
  assumes "p \<noteq> []" and "last p = CHR ''/''"
  shows "pathMatchFlat p path = Inr (strings_HasPrefix path p)"
  using assms
  by (auto simp: pathMatchFlat_def Let_def index_at_last slice_to_def strings_HasPrefix_def)
     (auto simp: len_def)

lemma pathMatchFlat_exact:
  assumes "p \<noteq> []" and "last p \<noteq> CHR ''/''"
  shows "pathMatchFlat p path = Inr (p = path)"
  using assms by (auto simp: pathMatchFlat_def Let_def index_at_last)

lemma splat_loop_total:
  "0 \<le> i \<Longrightarrow> i + len ps \<le> len path' \<Longrightarrow> \<exists>b. splat_loop ps path' i = Inr b"
proof (induction ps arbitrary: i)
  case Nil
  show ?case by auto
next
  case (Cons item rest)
  have i: "index_at path' i = Inr (path' ! nat i)"
    using Cons.prems by (simp add: index_at_def len_def)
  have r: "\<exists>b. splat_loop rest path' (i + 1) = Inr b"
    using Cons.prems by (intro Cons.IH) (auto simp: len_def)
  have s: "slice_to item (strings_Index item CHR '':'') = Inr (take (nat (strings_Index item CHR '':'')) item)"
    if "strings_Index item CHR '':'' \<noteq> - 1"
    using that strings_Index_lower [of item "CHR '':''"] strings_Index_upper [of item "CHR '':''"]
    by (simp add: slice_to_def)
  show ?case using r by (auto simp: Let_def i s)
qed

lemma pathMatchSplat_total:
  assumes "p \<noteq> []"
  shows "\<exists>b. pathMatchSplat p s = Inr b"
proof (cases "last p = CHR ''/''")
  case True
  have c: "1 \<le> strings_Count p CHR ''/''" using assms True by (rule strings_Count_last)
  have cut: "slice_to (strings_Split p CHR ''/'') (strings_Count p CHR ''/'' - 1)
      = Inr (take (nat (strings_Count p CHR ''/'' - 1)) (strings_Split p CHR ''/''))"
    using c by (simp add: slice_to_def len_strings_Split)
  have "\<exists>b. splat_loop (take (nat (strings_Count p CHR ''/'' - 1)) (strings_Split p CHR ''/''))
           (strings_Split s CHR ''/'') 0 = Inr b"
    if "\<not> len (strings_Split s CHR ''/'') \<le> strings_Count p CHR ''/'' - 1"
    using that c by (intro splat_loop_total) (auto simp: len_def)
  then show ?thesis
    using assms True by (auto simp: pathMatchSplat_def Let_def index_at_last cut)
next
  case False
  have "\<exists>b. splat_loop (strings_Split p CHR ''/'') (strings_Split s CHR ''/'') 0 = Inr b"
    if "strings_Count s CHR ''/'' = strings_Count p CHR ''/''"
    using that by (intro splat_loop_total) (auto simp: len_strings_Split)
  then show ?thesis
    using assms False by (auto simp: pathMatchSplat_def Let_def index_at_last)
qed

lemma pathMatch_total: "\<exists>b. pathMatch p s = Inr b"
proof (cases "p = []")
  case True
  then show ?thesis by (auto simp: pathMatch_def len_def)
next
  case False
  then show ?thesis
    using pathMatchSplat_total [of p s]
    by (cases "last p = CHR ''/''")
       (auto simp: pathMatch_def len_def pathMatchFlat_prefix pathMatchFlat_exact)
qed

section \<open>Flat patterns\<close>

text \<open>
  C1, as the code has it: for a non-empty pattern \<open>p\<close> that ends in a slash and has no
  capture marker, \<open>pathMatch p path\<close> is true exactly when \<open>path\<close> starts with all of
  \<open>p\<close> (\<open>p\<close> itself included). The pattern with its trailing slash removed is
  shorter than \<open>p\<close> and does not match.
\<close>

theorem pathMatch_flat_slash:
  assumes "p \<noteq> []" and "last p = CHR ''/''" and "\<not> strings_Contains p CHR '':''"
  shows "pathMatch p path = Inr (\<exists>rest. path = p @ rest)
       \<and> pathMatch p (butlast p) = Inr False"
proof -
  have flat: "pathMatch p s = Inr (strings_HasPrefix s p)" for s
    using assms by (simp add: pathMatch_def len_def pathMatchFlat_prefix)
  have pre: "strings_HasPrefix s p = (\<exists>rest. s = p @ rest)" for s
  proof
    assume "strings_HasPrefix s p"
    then have "s = p @ drop (length p) s"
      by (metis append_take_drop_id strings_HasPrefix_def)
    then show "\<exists>rest. s = p @ rest" ..
  next
    assume "\<exists>rest. s = p @ rest"
    then show "strings_HasPrefix s p" by (auto simp: strings_HasPrefix_def)
  qed
  have "length (butlast p) < length p"
    using assms(1) by (cases p) auto
  then have "\<not> strings_HasPrefix (butlast p) p"
    unfolding strings_HasPrefix_def by linarith
  then show ?thesis by (simp add: flat pre [symmetric])
qed

theorem pathMatch_flat_slash_witness:
  "pathMatch ''/hello/'' ''/hello/whatever'' = Inr True
   \<and> pathMatch ''/hello/'' ''/helloo'' = Inr False
   \<and> pathMatch ''/hello/'' ''/hello'' = Inr False"
  using pathMatch_flat_slash [of "''/hello/''" "''/hello/whatever''"]
        pathMatch_flat_slash [of "''/hello/''" "''/helloo''"]
  by (simp add: strings_Contains_def)

theorem pathMatch_flat_slash_counterexample:
  "pathMatch ''/hello/'' ''/hello'' = Inr False \<and> ''/hello'' = butlast ''/hello/''"
  by (simp add: pathMatch_def pathMatchFlat_def strings_Contains_def len_def index_at_def
      slice_to_def)

section \<open>Templated patterns\<close>

text \<open>
  C4: for a pattern with a capture marker, a pattern that does not end in a slash
  matches only a path with as many slashes as the pattern, and a pattern that ends in a
  slash matches only a path with strictly more segments than the pattern's slash count
  minus one; every other path gets the answer false.
\<close>

theorem pathMatch_splat_arity:
  assumes "strings_Contains p CHR '':''"
  shows "(pathMatch p s = Inr True \<longrightarrow>
            (if last p = CHR ''/''
             then len (strings_Split s CHR ''/'') > strings_Count p CHR ''/'' - 1
             else strings_Count s CHR ''/'' = strings_Count p CHR ''/''))
       \<and> (last p \<noteq> CHR ''/'' \<and> strings_Count s CHR ''/'' \<noteq> strings_Count p CHR ''/''
            \<longrightarrow> pathMatch p s = Inr False)
       \<and> (last p = CHR ''/'' \<and> \<not> len (strings_Split s CHR ''/'') > strings_Count p CHR ''/'' - 1
            \<longrightarrow> pathMatch p s = Inr False)"
proof -
  have ne: "p \<noteq> []" using assms by (auto simp: strings_Contains_def)
  have splat: "pathMatch p s = pathMatchSplat p s"
    using assms ne by (simp add: pathMatch_def len_def)
  have exact: "pathMatchSplat p s = Inr False"
    if "last p \<noteq> CHR ''/''" and "strings_Count s CHR ''/'' \<noteq> strings_Count p CHR ''/''"
    using that ne by (simp add: pathMatchSplat_def Let_def index_at_last)
  have c: "1 \<le> strings_Count p CHR ''/''" if "last p = CHR ''/''"
    using ne that by (rule strings_Count_last)
  have pre: "pathMatchSplat p s = Inr False"
    if "last p = CHR ''/''"
      and "\<not> len (strings_Split s CHR ''/'') > strings_Count p CHR ''/'' - 1"
    using that ne c [OF that(1)]
    by (simp add: pathMatchSplat_def Let_def index_at_last slice_to_def len_strings_Split)
  show ?thesis
    unfolding splat using exact [of] pre by (cases "last p = CHR ''/''") fastforce+
qed

theorem pathMatch_splat_arity_witness:
  "strings_Contains ''/:a'' CHR '':''
   \<and> pathMatch ''/:a'' ''/hello/world'' = Inr False
   \<and> strings_Count ''/hello/world'' CHR ''/'' = 2
   \<and> pathMatch ''/x/:a/'' ''/x'' = Inr False
   \<and> len (strings_Split ''/x'' CHR ''/'') = 2
   \<and> strings_Count ''/x/:a/'' CHR ''/'' = 3"
  using pathMatch_splat_arity [of "''/:a''" "''/hello/world''"]
        pathMatch_splat_arity [of "''/x/:a/''" "''/x''"]
  by (simp add: strings_Contains_def len_def)

subsection \<open>Which segments a templated pattern compares\<close>

text \<open>The loop compares each segment it is given with the segment of the path at the
  same index: a segment without a marker must be the path's segment, a segment that
  starts with the marker accepts any, and a segment with the marker further in must have
  its text before the marker as a prefix of the path's segment.\<close>

lemma splat_loop_checks:
  assumes "0 \<le> i" and "i + len ps \<le> len path'"
  shows "splat_loop ps path' i =
     Inr (\<forall>j < length ps.
            if strings_Index (ps ! j) CHR '':'' = - 1 then ps ! j = path' ! (nat i + j)
            else strings_Index (ps ! j) CHR '':'' = 0
               \<or> strings_HasPrefix (path' ! (nat i + j))
                    (take (nat (strings_Index (ps ! j) CHR '':'')) (ps ! j)))"
  using assms
proof (induction ps arbitrary: i)
  case Nil
  show ?case by simp
next
  case (Cons item rest)
  let ?ok = "\<lambda>ps i j.
            if strings_Index (ps ! j) CHR '':'' = - 1 then ps ! j = path' ! (nat i + j)
            else strings_Index (ps ! j) CHR '':'' = 0
               \<or> strings_HasPrefix (path' ! (nat i + j))
                    (take (nat (strings_Index (ps ! j) CHR '':'')) (ps ! j))"
  have at: "index_at path' i = Inr (path' ! nat i)"
    using Cons.prems by (simp add: index_at_def len_def)
  have item: "slice_to item (strings_Index item CHR '':'') = Inr (take (nat (strings_Index item CHR '':'')) item)"
    if "strings_Index item CHR '':'' \<noteq> - 1"
    using that strings_Index_lower [of item "CHR '':''"] strings_Index_upper [of item "CHR '':''"]
    by (simp add: slice_to_def)
  have "splat_loop rest path' (i + 1) = Inr (\<forall>j < length rest. ?ok rest (i + 1) j)"
    using Cons.prems by (intro Cons.IH) (simp_all add: len_def)
  moreover have "nat (i + 1) + j = nat i + Suc j" for j
    using Cons.prems(1) by simp
  ultimately have rest: "splat_loop rest path' (i + 1)
      = Inr (\<forall>j < length rest. ?ok (item # rest) i (Suc j))"
    by simp
  have split: "(\<forall>j < length (item # rest). ?ok (item # rest) i j)
      \<longleftrightarrow> ?ok (item # rest) i 0 \<and> (\<forall>j < length rest. ?ok (item # rest) i (Suc j))"
    by (simp add: All_less_Suc2 del: nth_Cons_Suc)
  show ?case
    unfolding split by (simp add: Let_def at item rest del: nth_Cons_Suc)
qed

text \<open>For a pattern with a marker that ends in a slash, the answer of \<open>pathMatch\<close> is
  the arity check and the comparison of the segments at the indices below the slash
  count minus one. The pattern has one segment more before its final empty one, at the
  index of the slash count minus one, and that segment is not compared.\<close>

lemma pathMatch_splat_slash_checks:
  assumes "strings_Contains p CHR '':''" and "last p = CHR ''/''"
  shows "pathMatch p s =
     Inr (strings_Count p CHR ''/'' - 1 < len (strings_Split s CHR ''/'')
          \<and> (\<forall>j < nat (strings_Count p CHR ''/'' - 1).
                if strings_Index (strings_Split p CHR ''/'' ! j) CHR '':'' = - 1
                then strings_Split p CHR ''/'' ! j = strings_Split s CHR ''/'' ! j
                else strings_Index (strings_Split p CHR ''/'' ! j) CHR '':'' = 0
                   \<or> strings_HasPrefix (strings_Split s CHR ''/'' ! j)
                        (take (nat (strings_Index (strings_Split p CHR ''/'' ! j) CHR '':''))
                           (strings_Split p CHR ''/'' ! j))))"
proof -
  let ?segs = "strings_Split p CHR ''/''"
  let ?path = "strings_Split s CHR ''/''"
  let ?k = "nat (strings_Count p CHR ''/'' - 1)"
  have ne: "p \<noteq> []" using assms(1) by (auto simp: strings_Contains_def)
  have lp: "len p \<noteq> 0" using ne by (simp add: len_def)
  have c: "1 \<le> strings_Count p CHR ''/''" using ne assms(2) by (rule strings_Count_last)
  have trimmed: "slice_to ?segs (strings_Count p CHR ''/'' - 1) = Inr (take ?k ?segs)"
    using c by (simp add: slice_to_def len_strings_Split)
  have k: "length (take ?k ?segs) = ?k"
    using c len_strings_Split [of p "CHR ''/''"] by (simp add: len_def)
  have loop: "splat_loop (take ?k ?segs) ?path 0 =
     Inr (\<forall>j < ?k.
            if strings_Index (?segs ! j) CHR '':'' = - 1 then ?segs ! j = ?path ! j
            else strings_Index (?segs ! j) CHR '':'' = 0
               \<or> strings_HasPrefix (?path ! j) (take (nat (strings_Index (?segs ! j) CHR '':'')) (?segs ! j)))"
    if "strings_Count p CHR ''/'' - 1 < len ?path"
  proof -
    have "0 + len (take ?k ?segs) \<le> len ?path"
      using that c k by (simp add: len_def)
    from splat_loop_checks [OF _ this] show ?thesis
      unfolding k by simp
  qed
  show ?thesis
  proof (cases "strings_Count p CHR ''/'' - 1 < len ?path")
    case True
    then show ?thesis
      using ne assms loop [OF True]
      by (simp add: pathMatch_def lp pathMatchSplat_def Let_def index_at_last trimmed)
  next
    case False
    then show ?thesis
      using ne assms
      by (simp add: pathMatch_def lp pathMatchSplat_def Let_def index_at_last trimmed)
  qed
qed

text \<open>
  C2 at a concrete input: the pattern \<open>/x/user-:id/\<close> is cut to the two segments
  before \<open>user-:id\<close>, so the segment \<open>abc\<close> of the path is never compared with the
  prefix \<open>user-\<close> and the path matches.
\<close>

theorem pathMatch_splat_last_segment_unchecked:
  "strings_Split ''/x/user-:id/'' CHR ''/'' = ['''', ''x'', ''user-:id'', '''']
   \<and> slice_to (strings_Split ''/x/user-:id/'' CHR ''/'')
        (strings_Count ''/x/user-:id/'' CHR ''/'' - 1) = Inr ['''', ''x'']
   \<and> pathMatch ''/x/user-:id/'' ''/x/abc/y'' = Inr True"
  by (simp add: pathMatch_def pathMatchSplat_def strings_Contains_def len_def index_at_def
      slice_to_def strings_HasPrefix_def)

section \<open>Registration\<close>

lemma slice_butlast: "s \<noteq> [] \<Longrightarrow> slice s 0 (len s - 1) = Inr (butlast s)"
  by (simp add: slice_def len_def butlast_conv_take nat_diff_distrib')

lemma len_pos: "s \<noteq> [] \<Longrightarrow> 0 < len s"
  by (simp add: len_def)

lemma map_get_upd: "map_get (mux(k \<mapsto> e)) k' = (if k' = k then e else map_get mux k')"
  by (simp add: map_get_def)

lemma map_get_explicit: "explicit (map_get mux k) \<longleftrightarrow> (\<exists>e. mux k = Some e \<and> explicit e)"
  by (cases "mux k") (simp_all add: map_get_def)

lemma butlast_neq: "s \<noteq> [] \<Longrightarrow> butlast s \<noteq> s"
proof
  assume "s \<noteq> []" and "butlast s = s"
  then have "length (butlast s) = length s" by simp
  moreover have "0 < length s" using \<open>s \<noteq> []\<close> by simp
  ultimately show False unfolding length_butlast by linarith
qed

text \<open>A call of \<open>Handle\<close> that passes the three checks, without the index
  operations.\<close>

lemma Handle_accepted:
  assumes "pattern \<noteq> []" and "hdl \<noteq> None" and "\<not> explicit (map_get mux pattern)"
  shows "Handle mux pattern hdl =
     (None,
      if last pattern = CHR ''/'' \<and> \<not> explicit (map_get mux (butlast pattern))
      then (mux(pattern \<mapsto> \<lparr>explicit = True, h = hdl\<rparr>))
             (butlast pattern \<mapsto>
                \<lparr>explicit = False, h = Some (RedirectHandler pattern StatusMovedPermanently)\<rparr>)
      else mux(pattern \<mapsto> \<lparr>explicit = True, h = hdl\<rparr>))"
  using assms butlast_neq [of pattern]
  by (simp add: Handle_def Let_def len_pos index_at_last slice_butlast map_get_upd)

lemma Handle_refused:
  assumes "pattern = [] \<or> hdl = None \<or> explicit (map_get mux pattern)"
  shows "fst (Handle mux pattern hdl) \<noteq> None \<and> snd (Handle mux pattern hdl) = mux"
  using assms by (auto simp: Handle_def)

text \<open>
  C8: \<open>Handle\<close> panics exactly when the pattern is empty, the handler is nil or
  the pattern has an explicit entry; a call that panics leaves the registry as it was,
  and every other call leaves an explicit entry of the pattern with the handler.
\<close>

theorem Handle_panics_iff:
  "(fst (Handle mux pattern hdl) \<noteq> None
      \<longleftrightarrow> pattern = [] \<or> hdl = None \<or> (\<exists>e. mux pattern = Some e \<and> explicit e))
   \<and> (fst (Handle mux pattern hdl) \<noteq> None \<longrightarrow> snd (Handle mux pattern hdl) = mux)
   \<and> (fst (Handle mux pattern hdl) = None
        \<longrightarrow> snd (Handle mux pattern hdl) pattern = Some \<lparr>explicit = True, h = hdl\<rparr>)"
proof (cases "pattern = [] \<or> hdl = None \<or> explicit (map_get mux pattern)")
  case True
  then show ?thesis
    using Handle_refused [of pattern hdl mux] by (auto simp: map_get_explicit)
next
  case False
  then have "Handle mux pattern hdl =
     (None,
      if last pattern = CHR ''/'' \<and> \<not> explicit (map_get mux (butlast pattern))
      then (mux(pattern \<mapsto> \<lparr>explicit = True, h = hdl\<rparr>))
             (butlast pattern \<mapsto>
                \<lparr>explicit = False, h = Some (RedirectHandler pattern StatusMovedPermanently)\<rparr>)
      else mux(pattern \<mapsto> \<lparr>explicit = True, h = hdl\<rparr>))"
    by (intro Handle_accepted) auto
  then show ?thesis
    using False butlast_neq [of pattern] by (auto simp: map_get_explicit)
qed

theorem Handle_panics_iff_witness:
  "fst (Handle (NewServeMux :: nat ServeMux) ''/tree/'' (Some (Custom 1))) = None
   \<and> snd (Handle (NewServeMux :: nat ServeMux) ''/tree/'' (Some (Custom 1))) ''/tree/''
       = Some \<lparr>explicit = True, h = Some (Custom 1)\<rparr>
   \<and> fst (Handle (NewServeMux :: nat ServeMux) ''/tree/'' None) \<noteq> None
   \<and> snd (Handle (NewServeMux :: nat ServeMux) ''/tree/'' None) = NewServeMux
   \<and> fst (Handle (snd (Handle (NewServeMux :: nat ServeMux) ''/a'' (Some (Custom 1))))
            ''/a'' (Some (Custom 2))) \<noteq> None"
  using Handle_panics_iff [of "NewServeMux :: nat ServeMux" "''/tree/''" "Some (Custom 1)"]
        Handle_panics_iff [of "NewServeMux :: nat ServeMux" "''/tree/''" None]
        Handle_panics_iff [of "NewServeMux :: nat ServeMux" "''/a''" "Some (Custom 1)"]
        Handle_panics_iff [of "snd (Handle (NewServeMux :: nat ServeMux) ''/a'' (Some (Custom 1)))"
                              "''/a''" "Some (Custom 2)"]
  by (simp add: NewServeMux_def)

lemma Handle_keeps_explicit:
  assumes "mux k = Some e" and "explicit e"
  shows "snd (Handle mux pattern hdl) k = Some e"
proof (cases "pattern = [] \<or> hdl = None \<or> explicit (map_get mux pattern)")
  case True
  then show ?thesis using Handle_refused [of pattern hdl mux] assms by simp
next
  case False
  then have ne: "pattern \<noteq> k" using assms by (auto simp: map_get_def)
  have "explicit (map_get mux k)" using assms by (simp add: map_get_def)
  then show ?thesis
    using False assms ne by (auto simp: Handle_accepted)
qed

lemma register_keeps_explicit:
  assumes "mux k = Some e" and "explicit e"
  shows "register mux c k = Some e"
  using assms by (cases c) (simp_all add: HandleFunc_def Handle_keeps_explicit)

text \<open>
  C10: an explicit entry stays as it is under every later \<open>Handle\<close> and
  \<open>HandleFunc\<close>, and so under every sequence of them.
\<close>

theorem explicit_entry_preserved:
  assumes "mux k = Some e" and "explicit e"
  shows "snd (Handle mux pattern hdl) k = Some e
       \<and> snd (HandleFunc mux pattern f) k = Some e
       \<and> foldl register mux calls k = Some e"
proof -
  have "foldl register mux calls k = Some e"
    using assms by (induction calls arbitrary: mux) (simp_all add: register_keeps_explicit)
  then show ?thesis
    using assms by (simp add: HandleFunc_def Handle_keeps_explicit)
qed

theorem explicit_entry_preserved_witness:
  "snd (Handle (NewServeMux :: nat ServeMux) ''/tree'' (Some (Custom 1))) ''/tree''
     = Some \<lparr>explicit = True, h = Some (Custom 1)\<rparr>
   \<and> foldl register (snd (Handle (NewServeMux :: nat ServeMux) ''/tree'' (Some (Custom 1))))
        [CallHandle ''/tree/'' (Some (Custom 2)), CallHandleFunc ''/tree'' 3] ''/tree''
     = Some \<lparr>explicit = True, h = Some (Custom 1)\<rparr>"
  using explicit_entry_preserved [of "snd (Handle (NewServeMux :: nat ServeMux) ''/tree'' (Some (Custom 1)))"
          "''/tree''" "\<lparr>explicit = True, h = Some (Custom 1)\<rparr>"
          _ _ _ "[CallHandle ''/tree/'' (Some (Custom 2)), CallHandleFunc ''/tree'' 3]"]
  by (simp add: Handle_accepted NewServeMux_def map_get_def)

section \<open>Canonical paths and dispatch\<close>

lemma index_at_0: "s \<noteq> [] \<Longrightarrow> index_at s 0 = Inr (hd s)"
  by (simp add: index_at_def len_def hd_conv_nth)

text \<open>\<open>cleanPath\<close> never panics: the empty path gives the root, every other path is
  given a leading slash, cleaned by \<open>path.Clean\<close>, and gets its trailing slash back
  unless the clean path is the root.\<close>

lemma cleanPath_value:
  "cleanPath Clean p =
     Inr (if p = [] then ''/''
          else if last p = CHR ''/''
                  \<and> Clean (if hd p = CHR ''/'' then p else CHR ''/'' # p) \<noteq> ''/''
          then Clean (if hd p = CHR ''/'' then p else CHR ''/'' # p) @ ''/''
          else Clean (if hd p = CHR ''/'' then p else CHR ''/'' # p))"
proof (cases "p = []")
  case True
  then show ?thesis by (simp add: cleanPath_def)
next
  case False
  have "index_at (CHR ''/'' # p) (len (CHR ''/'' # p) - 1) = Inr (last (CHR ''/'' # p))"
    by (rule index_at_last) simp
  then show ?thesis
    using False by (simp add: cleanPath_def index_at_0 index_at_last Let_def)
qed

text \<open>
  C9: the canonical path of a request is what \<open>cleanPath\<close> returns, and it always
  returns: the root for the empty path; otherwise the path, with a slash put in front
  unless it starts with one, cleaned by \<open>path.Clean\<close>, and with a slash put back at
  the end when the path ended in one and the clean path is not the root. So the argument
  of \<open>path.Clean\<close> starts with a slash, and so does the canonical path when
  \<open>path.Clean\<close> keeps the leading slash of a rooted path; a path that ends in a slash
  has a canonical path that ends in a slash, and the root gets no second slash. A request
  whose method is not CONNECT and whose path is not its canonical path is answered by
  \<open>ServeHTTP\<close> itself, with the canonical path in the Location header and the
  status 301, and no handler is looked up or called. A CONNECT request, whatever its path
  is, and a request whose path is canonical go to the handler lookup.
\<close>

theorem ServeHTTP_redirects_to_canonical:
  "(let path = URL_Path r;
        rooted = (if path \<noteq> [] \<and> hd path = CHR ''/'' then path else CHR ''/'' # path);
        canonical = (if path = [] then ''/''
                     else if last path = CHR ''/'' \<and> Clean rooted \<noteq> ''/'' then Clean rooted @ ''/''
                     else Clean rooted);
        dispatch = (case handler Encode mux ks ks' r of
                      Inl e \<Rightarrow> Inl e
                    | Inr (found, r') \<Rightarrow> Inr (Dispatched found w r'))
    in
    cleanPath Clean path = Inr canonical
    \<and> (path = [] \<longrightarrow> canonical = ''/'')
    \<and> hd rooted = CHR ''/''
    \<and> ((\<forall>q. q \<noteq> [] \<and> hd q = CHR ''/'' \<longrightarrow> Clean q \<noteq> [] \<and> hd (Clean q) = CHR ''/'')
          \<longrightarrow> canonical \<noteq> [] \<and> hd canonical = CHR ''/'')
    \<and> (path \<noteq> [] \<and> last path = CHR ''/'' \<longrightarrow> last canonical = CHR ''/'')
    \<and> (path \<noteq> [] \<and> last path \<noteq> CHR ''/'' \<longrightarrow> canonical = Clean rooted)
    \<and> (path \<noteq> [] \<and> Clean rooted = ''/'' \<longrightarrow> canonical = ''/'')
    \<and> (Method r \<noteq> ''CONNECT'' \<and> canonical \<noteq> path
          \<longrightarrow> ServeHTTP Clean Encode mux ks ks' w r
                = Inr (Responded (w\<lparr>Header := (Header w)(''Location'' \<mapsto> canonical),
                                    Status := Some 301\<rparr>)))
    \<and> (Method r \<noteq> ''CONNECT'' \<and> canonical = path
          \<longrightarrow> ServeHTTP Clean Encode mux ks ks' w r = dispatch)
    \<and> (Method r = ''CONNECT'' \<longrightarrow> ServeHTTP Clean Encode mux ks ks' w r = dispatch))"
proof -
  define path where "path = URL_Path r"
  define rooted where
    "rooted = (if path \<noteq> [] \<and> hd path = CHR ''/'' then path else CHR ''/'' # path)"
  define canonical where
    "canonical = (if path = [] then ''/''
                  else if last path = CHR ''/'' \<and> Clean rooted \<noteq> ''/'' then Clean rooted @ ''/''
                  else Clean rooted)"
  define dispatch where
    "dispatch = (case handler Encode mux ks ks' r of
                   Inl e \<Rightarrow> Inl e
                 | Inr (found, r') \<Rightarrow> Inr (Dispatched found w r'))"
  have r: "(if hd path = CHR ''/'' then path else CHR ''/'' # path) = rooted" if "path \<noteq> []"
    using that by (simp add: rooted_def)
  have cp: "cleanPath Clean path = Inr canonical"
  proof (cases "path = []")
    case True
    then show ?thesis by (simp add: cleanPath_value canonical_def)
  next
    case False
    then show ?thesis
      unfolding cleanPath_value canonical_def r [OF False] by simp
  qed
  have rooted: "rooted \<noteq> []" "hd rooted = CHR ''/''"
    by (simp_all add: rooted_def)
  have lead: "canonical \<noteq> [] \<and> hd canonical = CHR ''/''"
    if "\<forall>q. q \<noteq> [] \<and> hd q = CHR ''/'' \<longrightarrow> Clean q \<noteq> [] \<and> hd (Clean q) = CHR ''/''"
  proof -
    have "Clean rooted \<noteq> [] \<and> hd (Clean rooted) = CHR ''/''" using that rooted by blast
    then show ?thesis by (simp add: canonical_def)
  qed
  have trail: "last canonical = CHR ''/''" if "path \<noteq> []" "last path = CHR ''/''"
    using that by (simp add: canonical_def)
  have plain: "canonical = Clean rooted" if "path \<noteq> []" "last path \<noteq> CHR ''/''"
    using that by (simp add: canonical_def)
  have root: "canonical = ''/''" if "path \<noteq> []" "Clean rooted = ''/''"
    using that by (simp add: canonical_def)
  have empty: "canonical = ''/''" if "path = []"
    using that by (simp add: canonical_def)
  have redirect: "ServeHTTP Clean Encode mux ks ks' w r
                = Inr (Responded (w\<lparr>Header := (Header w)(''Location'' \<mapsto> canonical),
                                    Status := Some 301\<rparr>))"
    if "Method r \<noteq> ''CONNECT''" "canonical \<noteq> path"
    using that cp by (simp add: ServeHTTP_def path_def StatusMovedPermanently_def)
  have same: "ServeHTTP Clean Encode mux ks ks' w r = dispatch"
    if "Method r \<noteq> ''CONNECT''" "canonical = path"
    using that cp by (simp add: ServeHTTP_def path_def dispatch_def)
  have connect: "ServeHTTP Clean Encode mux ks ks' w r = dispatch" if "Method r = ''CONNECT''"
    using that by (simp add: ServeHTTP_def dispatch_def)
  have "cleanPath Clean path = Inr canonical
    \<and> (path = [] \<longrightarrow> canonical = ''/'')
    \<and> hd rooted = CHR ''/''
    \<and> ((\<forall>q. q \<noteq> [] \<and> hd q = CHR ''/'' \<longrightarrow> Clean q \<noteq> [] \<and> hd (Clean q) = CHR ''/'')
          \<longrightarrow> canonical \<noteq> [] \<and> hd canonical = CHR ''/'')
    \<and> (path \<noteq> [] \<and> last path = CHR ''/'' \<longrightarrow> last canonical = CHR ''/'')
    \<and> (path \<noteq> [] \<and> last path \<noteq> CHR ''/'' \<longrightarrow> canonical = Clean rooted)
    \<and> (path \<noteq> [] \<and> Clean rooted = ''/'' \<longrightarrow> canonical = ''/'')
    \<and> (Method r \<noteq> ''CONNECT'' \<and> canonical \<noteq> path
          \<longrightarrow> ServeHTTP Clean Encode mux ks ks' w r
                = Inr (Responded (w\<lparr>Header := (Header w)(''Location'' \<mapsto> canonical),
                                    Status := Some 301\<rparr>)))
    \<and> (Method r \<noteq> ''CONNECT'' \<and> canonical = path
          \<longrightarrow> ServeHTTP Clean Encode mux ks ks' w r = dispatch)
    \<and> (Method r = ''CONNECT'' \<longrightarrow> ServeHTTP Clean Encode mux ks ks' w r = dispatch)"
    using cp empty rooted(2) lead trail plain root redirect same connect by blast
  then show ?thesis
    unfolding Let_def path_def [symmetric]
    unfolding rooted_def [symmetric]
    unfolding canonical_def [symmetric] dispatch_def [symmetric] .
qed

theorem ServeHTTP_redirects_to_canonical_witness:
  "cleanPath (\<lambda>s. if s = ''/x/../a/'' \<or> s = ''/a/'' then ''/a'' else s) ''/x/../a/'' = Inr ''/a/''
   \<and> ServeHTTP (\<lambda>s. if s = ''/x/../a/'' \<or> s = ''/a/'' then ''/a'' else s) (\<lambda>v. [])
        (NewServeMux :: nat ServeMux) [] []
        \<lparr>Header = Map.empty, Status = None\<rparr>
        \<lparr>Method = ''GET'', Host = ''h'', URL_Path = ''/x/../a/'', URL_RawQuery = ''''\<rparr>
      = Inr (Responded \<lparr>Header = [''Location'' \<mapsto> ''/a/''], Status = Some 301\<rparr>)
   \<and> ServeHTTP (\<lambda>s. if s = ''/x/../a/'' \<or> s = ''/a/'' then ''/a'' else s) (\<lambda>v. [])
        (NewServeMux :: nat ServeMux) [] []
        \<lparr>Header = Map.empty, Status = None\<rparr>
        \<lparr>Method = ''CONNECT'', Host = ''h'', URL_Path = ''/x/../a/'', URL_RawQuery = ''''\<rparr>
      = Inr (Dispatched NotFoundHandler \<lparr>Header = Map.empty, Status = None\<rparr>
          \<lparr>Method = ''CONNECT'', Host = ''h'', URL_Path = ''/x/../a/'', URL_RawQuery = ''''\<rparr>)
   \<and> ServeHTTP (\<lambda>s. if s = ''/x/../a/'' \<or> s = ''/a/'' then ''/a'' else s) (\<lambda>v. [])
        (NewServeMux :: nat ServeMux) [] []
        \<lparr>Header = Map.empty, Status = None\<rparr>
        \<lparr>Method = ''GET'', Host = ''h'', URL_Path = ''/a/'', URL_RawQuery = ''''\<rparr>
      = Inr (Dispatched NotFoundHandler \<lparr>Header = Map.empty, Status = None\<rparr>
          \<lparr>Method = ''GET'', Host = ''h'', URL_Path = ''/a/'', URL_RawQuery = ''''\<rparr>)
   \<and> cleanPath (\<lambda>s. if s = ''/x/../a/'' \<or> s = ''/a/'' then ''/a'' else s) '''' = Inr ''/''
   \<and> cleanPath (\<lambda>s. if s = ''/x/../a/'' \<or> s = ''/a/'' then ''/a'' else s) ''b'' = Inr ''/b''
   \<and> hd ''/a/'' = CHR ''/'' \<and> last ''/a/'' = CHR ''/''"
  using ServeHTTP_redirects_to_canonical [where
          r = "\<lparr>Method = ''GET'', Host = ''h'', URL_Path = ''/x/../a/'', URL_RawQuery = ''''\<rparr>"
          and Clean = "\<lambda>s. if s = ''/x/../a/'' \<or> s = ''/a/'' then ''/a'' else s"
          and Encode = "\<lambda>v. []" and mux = "NewServeMux :: nat ServeMux"
          and ks = "[]" and ks' = "[]"
          and w = "\<lparr>Header = Map.empty, Status = None\<rparr>"]
        ServeHTTP_redirects_to_canonical [where
          r = "\<lparr>Method = ''CONNECT'', Host = ''h'', URL_Path = ''/x/../a/'', URL_RawQuery = ''''\<rparr>"
          and Clean = "\<lambda>s. if s = ''/x/../a/'' \<or> s = ''/a/'' then ''/a'' else s"
          and Encode = "\<lambda>v. []" and mux = "NewServeMux :: nat ServeMux"
          and ks = "[]" and ks' = "[]"
          and w = "\<lparr>Header = Map.empty, Status = None\<rparr>"]
        ServeHTTP_redirects_to_canonical [where
          r = "\<lparr>Method = ''GET'', Host = ''h'', URL_Path = ''/a/'', URL_RawQuery = ''''\<rparr>"
          and Clean = "\<lambda>s. if s = ''/x/../a/'' \<or> s = ''/a/'' then ''/a'' else s"
          and Encode = "\<lambda>v. []" and mux = "NewServeMux :: nat ServeMux"
          and ks = "[]" and ks' = "[]"
          and w = "\<lparr>Header = Map.empty, Status = None\<rparr>"]
        ServeHTTP_redirects_to_canonical [where
          r = "\<lparr>Method = ''GET'', Host = ''h'', URL_Path = '''', URL_RawQuery = ''''\<rparr>"
          and Clean = "\<lambda>s. if s = ''/x/../a/'' \<or> s = ''/a/'' then ''/a'' else s"
          and Encode = "\<lambda>v. []" and mux = "NewServeMux :: nat ServeMux"
          and ks = "[]" and ks' = "[]"
          and w = "\<lparr>Header = Map.empty, Status = None\<rparr>"]
        ServeHTTP_redirects_to_canonical [where
          r = "\<lparr>Method = ''GET'', Host = ''h'', URL_Path = ''b'', URL_RawQuery = ''''\<rparr>"
          and Clean = "\<lambda>s. if s = ''/x/../a/'' \<or> s = ''/a/'' then ''/a'' else s"
          and Encode = "\<lambda>v. []" and mux = "NewServeMux :: nat ServeMux"
          and ks = "[]" and ks' = "[]"
          and w = "\<lparr>Header = Map.empty, Status = None\<rparr>"]
  by (simp add: Let_def handler_def match_def)

section \<open>Resolution\<close>

lemma match_loop_total: "\<exists>st'. match_loop mux ks path st = Inr st'"
proof (induction ks arbitrary: st)
  case Nil
  show ?case by (cases st) simp
next
  case (Cons k ks)
  obtain n pat hdl where st: "st = (n, pat, hdl)" by (cases st) auto
  obtain b where b: "pathMatch k path = Inr b" using pathMatch_total by blast
  show ?case using Cons.IH by (simp add: st b Let_def)
qed

text \<open>What the loop of \<open>match\<close> keeps: once a handler is held, the pattern held has
  matched, its length is \<open>n\<close>, and no pattern seen so far that matches is longer.\<close>

lemma match_loop_best:
  assumes "\<And>k. k \<in> set ks \<Longrightarrow> h (map_get mux k) \<noteq> None"
    and "match_loop mux ks path (n, pat, hdl) = Inr (n', pat', hdl')"
    and "hdl \<noteq> None \<Longrightarrow>
           n = len pat \<and> pathMatch pat path = Inr True \<and> pat \<in> S \<and> hdl = h (map_get mux pat)"
    and "\<And>k. k \<in> S \<Longrightarrow> pathMatch k path = Inr True \<Longrightarrow> hdl \<noteq> None \<and> len k \<le> n"
  shows "(hdl' \<noteq> None \<longrightarrow>
            n' = len pat' \<and> pathMatch pat' path = Inr True \<and> pat' \<in> S \<union> set ks
            \<and> hdl' = h (map_get mux pat'))
       \<and> (\<forall>k \<in> S \<union> set ks. pathMatch k path = Inr True \<longrightarrow> hdl' \<noteq> None \<and> len k \<le> n')"
  using assms
proof (induction ks arbitrary: n pat hdl S)
  case Nil
  then show ?case by auto
next
  case (Cons k ks)
  obtain b where b: "pathMatch k path = Inr b" using pathMatch_total by blast
  have hk: "h (map_get mux k) \<noteq> None" using Cons.prems(1) by simp
  have rest: "\<And>k'. k' \<in> set ks \<Longrightarrow> h (map_get mux k') \<noteq> None" using Cons.prems(1) by simp
  have un: "insert k S \<union> set ks = S \<union> set (k # ks)" by auto
  consider (skip) "\<not> b" | (take) "b" "hdl = None \<or> len k > n" | (keep) "b" "hdl \<noteq> None" "len k \<le> n"
    by fastforce
  then show ?case
  proof cases
    case skip
    then have run: "match_loop mux ks path (n, pat, hdl) = Inr (n', pat', hdl')"
      using Cons.prems(2) by (simp add: b)
    have "(hdl' \<noteq> None \<longrightarrow>
            n' = len pat' \<and> pathMatch pat' path = Inr True \<and> pat' \<in> insert k S \<union> set ks
            \<and> hdl' = h (map_get mux pat'))
       \<and> (\<forall>k' \<in> insert k S \<union> set ks. pathMatch k' path = Inr True \<longrightarrow> hdl' \<noteq> None \<and> len k' \<le> n')"
    proof (rule Cons.IH [OF rest run])
      show "n = len pat \<and> pathMatch pat path = Inr True \<and> pat \<in> insert k S \<and> hdl = h (map_get mux pat)"
        if "hdl \<noteq> None" using Cons.prems(3) that by simp
      show "hdl \<noteq> None \<and> len k' \<le> n" if "k' \<in> insert k S" "pathMatch k' path = Inr True" for k'
        using that skip b Cons.prems(4) by auto
    qed
    then show ?thesis unfolding un .
  next
    case take
    then have run: "match_loop mux ks path (len k, k, h (map_get mux k)) = Inr (n', pat', hdl')"
      using Cons.prems(2) by (auto simp: b Let_def)
    have "(hdl' \<noteq> None \<longrightarrow>
            n' = len pat' \<and> pathMatch pat' path = Inr True \<and> pat' \<in> insert k S \<union> set ks
            \<and> hdl' = h (map_get mux pat'))
       \<and> (\<forall>k' \<in> insert k S \<union> set ks. pathMatch k' path = Inr True \<longrightarrow> hdl' \<noteq> None \<and> len k' \<le> n')"
    proof (rule Cons.IH [OF rest run])
      show "len k = len k \<and> pathMatch k path = Inr True \<and> k \<in> insert k S
            \<and> h (map_get mux k) = h (map_get mux k)"
        using take b by simp
      show "h (map_get mux k) \<noteq> None \<and> len k' \<le> len k"
        if "k' \<in> insert k S" "pathMatch k' path = Inr True" for k'
        using that take hk Cons.prems(4) [of k'] by fastforce
    qed
    then show ?thesis unfolding un .
  next
    case keep
    then have run: "match_loop mux ks path (n, pat, hdl) = Inr (n', pat', hdl')"
      using Cons.prems(2) by (auto simp: b Let_def)
    have "(hdl' \<noteq> None \<longrightarrow>
            n' = len pat' \<and> pathMatch pat' path = Inr True \<and> pat' \<in> insert k S \<union> set ks
            \<and> hdl' = h (map_get mux pat'))
       \<and> (\<forall>k' \<in> insert k S \<union> set ks. pathMatch k' path = Inr True \<longrightarrow> hdl' \<noteq> None \<and> len k' \<le> n')"
    proof (rule Cons.IH [OF rest run])
      show "n = len pat \<and> pathMatch pat path = Inr True \<and> pat \<in> insert k S \<and> hdl = h (map_get mux pat)"
        if "hdl \<noteq> None" using Cons.prems(3) that by simp
      show "hdl \<noteq> None \<and> len k' \<le> n" if "k' \<in> insert k S" "pathMatch k' path = Inr True" for k'
        using that keep Cons.prems(4) by auto
    qed
    then show ?thesis unfolding un .
  qed
qed

text \<open>\<open>match\<close> over keys that all hold a handler: it returns, a handler it returns
  is the one of the pattern it returns, that pattern has matched, and it returns a
  handler whenever some pattern matches, of a pattern no shorter than any that matches.\<close>

lemma match_result:
  assumes "\<And>k. k \<in> set ks \<Longrightarrow> h (map_get mux k) \<noteq> None"
  shows "\<exists>pat hdl. match mux ks path = Inr (pat, hdl)
       \<and> (hdl \<noteq> None \<longrightarrow>
             pat \<in> set ks \<and> pathMatch pat path = Inr True \<and> hdl = h (map_get mux pat))
       \<and> (\<forall>k \<in> set ks. pathMatch k path = Inr True \<longrightarrow> hdl \<noteq> None \<and> length k \<le> length pat)"
proof -
  obtain n' pat' hdl' where run: "match_loop mux ks path (0, [], None) = Inr (n', pat', hdl')"
    using match_loop_total [of mux ks path "(0, [], None)"] by (metis prod_cases3)
  have best: "(hdl' \<noteq> None \<longrightarrow>
            n' = len pat' \<and> pathMatch pat' path = Inr True \<and> pat' \<in> {} \<union> set ks
            \<and> hdl' = h (map_get mux pat'))
       \<and> (\<forall>k \<in> {} \<union> set ks. pathMatch k path = Inr True \<longrightarrow> hdl' \<noteq> None \<and> len k \<le> n')"
    by (rule match_loop_best [OF assms run]) auto
  have "match mux ks path = Inr (pat', hdl')" by (simp add: match_def run)
  moreover have "\<forall>k \<in> set ks. pathMatch k path = Inr True \<longrightarrow> hdl' \<noteq> None \<and> length k \<le> length pat'"
    using best by (auto simp: len_def)
  ultimately show ?thesis using best by auto
qed

text \<open>The one pattern that matches and is strictly longer than every other pattern that
  matches is the one \<open>match\<close> returns, in every order of the scan.\<close>

lemma match_unique_longest:
  assumes "\<And>k. k \<in> set ks \<Longrightarrow> h (map_get mux k) \<noteq> None"
    and "k \<in> set ks" and "pathMatch k path = Inr True"
    and "\<And>k'. k' \<in> set ks \<Longrightarrow> k' \<noteq> k \<Longrightarrow> pathMatch k' path = Inr True \<Longrightarrow> length k' < length k"
  shows "match mux ks path = Inr (k, h (map_get mux k))"
proof -
  obtain pat hdl where r: "match mux ks path = Inr (pat, hdl)"
    and found: "hdl \<noteq> None \<longrightarrow>
             pat \<in> set ks \<and> pathMatch pat path = Inr True \<and> hdl = h (map_get mux pat)"
    and longest: "\<forall>k \<in> set ks. pathMatch k path = Inr True \<longrightarrow> hdl \<noteq> None \<and> length k \<le> length pat"
    using match_result [OF assms(1), of ks path] by blast
  have hdl: "hdl \<noteq> None" and le: "length k \<le> length pat"
    using longest assms(2,3) by auto
  have "pat = k"
  proof (rule ccontr)
    assume "pat \<noteq> k"
    then have "length pat < length k" using found hdl assms(4) by blast
    with le show False by simp
  qed
  then show ?thesis using r found hdl by simp
qed

text \<open>Every entry of a registry built by registrations holds a handler: \<open>Handle\<close>
  refuses the nil handler, and the redirect it adds is a handler.\<close>

lemma Handle_handlers:
  assumes "\<And>k e. mux k = Some e \<Longrightarrow> h e \<noteq> None"
    and "snd (Handle mux pattern hdl) k = Some e"
  shows "h e \<noteq> None"
proof (cases "pattern = [] \<or> hdl = None \<or> explicit (map_get mux pattern)")
  case True
  then show ?thesis using Handle_refused [of pattern hdl mux] assms by auto
next
  case False
  then show ?thesis
    using assms by (auto simp: Handle_accepted split: if_splits)
qed

lemma register_handlers:
  assumes "\<And>k e. mux k = Some e \<Longrightarrow> h e \<noteq> None"
    and "register mux c k = Some e"
  shows "h e \<noteq> None"
proof (cases c)
  case (CallHandle pattern hdl)
  then show ?thesis using assms Handle_handlers [of mux pattern hdl k e] by simp
next
  case (CallHandleFunc pattern f)
  then show ?thesis
    using assms Handle_handlers [of mux pattern "Some (HandlerFunc f)" k e]
    by (simp add: HandleFunc_def)
qed

lemma foldl_register_handlers:
  assumes "\<And>k e. mux k = Some e \<Longrightarrow> h e \<noteq> None"
    and "foldl register mux calls k = Some e"
  shows "h e \<noteq> None"
  using assms
proof (induction calls arbitrary: mux)
  case Nil
  then show ?case by simp
next
  case (Cons c calls)
  show ?case
  proof (rule Cons.IH)
    show "h e' \<noteq> None" if "register mux c k' = Some e'" for k' e'
      using Cons.prems(1) that by (rule register_handlers)
    show "foldl register (register mux c) calls k = Some e" using Cons.prems(2) by simp
  qed
qed

lemma registered_handlers:
  assumes "k \<in> dom (registered calls)"
  shows "h (map_get (registered calls) k) \<noteq> None"
proof -
  obtain e where e: "registered calls k = Some e" using assms by auto
  have "h e \<noteq> None"
    by (rule foldl_register_handlers [of NewServeMux calls k e])
       (use e in \<open>simp_all add: NewServeMux_def registered_def\<close>)
  then show ?thesis by (simp add: map_get_def e)
qed

text \<open>
  C6: in a registry built by registrations, scanned in any order, a pattern that
  \<open>match\<close> returns with a handler matches the path, is registered, and is at least as
  long as every registered pattern that matches the path. With \<open>/images/\<close> and
  \<open>/images/thumbnails/\<close> registered, the path \<open>/images/thumbnails/x\<close> resolves to
  \<open>/images/thumbnails/\<close> and its handler.
\<close>

theorem match_longest_pattern:
  "(range_order (registered calls) ks \<and> match (registered calls) ks s = Inr (k, Some found)
      \<longrightarrow> pathMatch k s = Inr True \<and> k \<in> dom (registered calls)
          \<and> (\<forall>k' \<in> dom (registered calls). pathMatch k' s = Inr True \<longrightarrow> length k' \<le> length k))
   \<and> (range_order (registered [CallHandle ''/images/'' (Some a),
                                 CallHandle ''/images/thumbnails/'' (Some b)]) ks'
      \<longrightarrow> match (registered [CallHandle ''/images/'' (Some a),
                               CallHandle ''/images/thumbnails/'' (Some b)]) ks'
             ''/images/thumbnails/x'' = Inr (''/images/thumbnails/'', Some b))"
proof (intro conjI impI)
  assume a: "range_order (registered calls) ks \<and> match (registered calls) ks s = Inr (k, Some found)"
  then have ks: "set ks = dom (registered calls)" by (simp add: range_order_def)
  have hs: "\<And>k. k \<in> set ks \<Longrightarrow> h (map_get (registered calls) k) \<noteq> None"
    unfolding ks by (rule registered_handlers)
  from match_result [OF hs, of ks s] a
  have r: "k \<in> set ks \<and> pathMatch k s = Inr True"
    and l: "\<forall>k' \<in> set ks. pathMatch k' s = Inr True \<longrightarrow> length k' \<le> length k"
    by auto
  show "pathMatch k s = Inr True" using r by simp
  show "k \<in> dom (registered calls)" using r ks by simp
  show "\<forall>k' \<in> dom (registered calls). pathMatch k' s = Inr True \<longrightarrow> length k' \<le> length k"
    using l ks by simp
next
  let ?mux = "registered [CallHandle ''/images/'' (Some a), CallHandle ''/images/thumbnails/'' (Some b)]"
  assume "range_order ?mux ks'"
  then have ks: "set ks' = dom ?mux" by (simp add: range_order_def)
  have m: "?mux = [''/images/'' \<mapsto> \<lparr>explicit = True, h = Some a\<rparr>,
                   ''/images'' \<mapsto> \<lparr>explicit = False, h = Some (RedirectHandler ''/images/'' 301)\<rparr>,
                   ''/images/thumbnails/'' \<mapsto> \<lparr>explicit = True, h = Some b\<rparr>,
                   ''/images/thumbnails'' \<mapsto>
                      \<lparr>explicit = False, h = Some (RedirectHandler ''/images/thumbnails/'' 301)\<rparr>]"
    by (simp add: registered_def NewServeMux_def Handle_accepted map_get_def
        StatusMovedPermanently_def)
  have d: "dom ?mux = {''/images/'', ''/images'', ''/images/thumbnails/'', ''/images/thumbnails''}"
    unfolding m by auto
  have hs: "\<And>k. k \<in> set ks' \<Longrightarrow> h (map_get ?mux k) \<noteq> None"
    unfolding ks by (rule registered_handlers)
  have p1: "pathMatch ''/images/thumbnails/'' ''/images/thumbnails/x'' = Inr True"
    and p2: "pathMatch ''/images/thumbnails'' ''/images/thumbnails/x'' = Inr False"
    and p3: "pathMatch ''/images'' ''/images/thumbnails/x'' = Inr False"
    by (simp_all add: pathMatch_def pathMatchFlat_def strings_Contains_def len_def index_at_def
        slice_to_def)
  have "match ?mux ks' ''/images/thumbnails/x''
      = Inr (''/images/thumbnails/'', h (map_get ?mux ''/images/thumbnails/''))"
  proof (rule match_unique_longest [OF hs])
    show "''/images/thumbnails/'' \<in> set ks'" unfolding ks d by simp
    show "pathMatch ''/images/thumbnails/'' ''/images/thumbnails/x'' = Inr True" by (rule p1)
    show "length k' < length ''/images/thumbnails/''"
      if "k' \<in> set ks'" "k' \<noteq> ''/images/thumbnails/''"
         "pathMatch k' ''/images/thumbnails/x'' = Inr True" for k'
      using that p2 p3 unfolding ks d by auto
  qed
  moreover have "h (map_get ?mux ''/images/thumbnails/'') = Some b"
    unfolding m by (simp add: map_get_def)
  ultimately show "match ?mux ks' ''/images/thumbnails/x'' = Inr (''/images/thumbnails/'', Some b)"
    by simp
qed

theorem match_longest_pattern_witness:
  "range_order (registered [CallHandle ''/images/'' (Some (Custom (1::nat))),
                            CallHandle ''/images/thumbnails/'' (Some (Custom 2))])
     [''/images'', ''/images/thumbnails/'', ''/images/thumbnails'', ''/images/'']
   \<and> match (registered [CallHandle ''/images/'' (Some (Custom (1::nat))),
                         CallHandle ''/images/thumbnails/'' (Some (Custom 2))])
       [''/images'', ''/images/thumbnails/'', ''/images/thumbnails'', ''/images/'']
       ''/images/thumbnails/x'' = Inr (''/images/thumbnails/'', Some (Custom 2))
   \<and> pathMatch ''/images/thumbnails/'' ''/images/thumbnails/x'' = Inr True
   \<and> pathMatch ''/images/'' ''/images/thumbnails/x'' = Inr True
   \<and> length ''/images/'' \<le> length ''/images/thumbnails/''"
proof -
  let ?calls = "[CallHandle ''/images/'' (Some (Custom (1::nat))),
                 CallHandle ''/images/thumbnails/'' (Some (Custom 2))]"
  let ?ks = "[''/images'', ''/images/thumbnails/'', ''/images/thumbnails'', ''/images/'']"
  have m: "registered ?calls = [''/images/'' \<mapsto> \<lparr>explicit = True, h = Some (Custom 1)\<rparr>,
                   ''/images'' \<mapsto> \<lparr>explicit = False, h = Some (RedirectHandler ''/images/'' 301)\<rparr>,
                   ''/images/thumbnails/'' \<mapsto> \<lparr>explicit = True, h = Some (Custom 2)\<rparr>,
                   ''/images/thumbnails'' \<mapsto>
                      \<lparr>explicit = False, h = Some (RedirectHandler ''/images/thumbnails/'' 301)\<rparr>]"
    by (simp add: registered_def NewServeMux_def Handle_accepted map_get_def
        StatusMovedPermanently_def)
  have ro: "range_order (registered ?calls) ?ks"
    unfolding m range_order_def by auto
  have p: "pathMatch ''/images/'' ''/images/thumbnails/x'' = Inr True"
    by (simp add: pathMatch_def pathMatchFlat_def strings_Contains_def len_def index_at_def
        slice_to_def)
  have d: "''/images/'' \<in> dom (registered ?calls)" unfolding m by simp
  from match_longest_pattern [of ?calls ?ks "''/images/thumbnails/x''" "''/images/thumbnails/''"
      "Custom 2" "Custom 1" "Custom 2" ?ks] ro
  have r: "match (registered ?calls) ?ks ''/images/thumbnails/x''
             = Inr (''/images/thumbnails/'', Some (Custom 2))"
    by blast
  with match_longest_pattern [of ?calls ?ks "''/images/thumbnails/x''" "''/images/thumbnails/''"
      "Custom 2" "Custom 1" "Custom 2" ?ks] ro
  have "pathMatch ''/images/thumbnails/'' ''/images/thumbnails/x'' = Inr True" by blast
  then show ?thesis using ro r p by simp
qed

section \<open>A pattern matches itself\<close>

lemma index_at_append: "index_at (pre @ x # rest) (len pre) = Inr x"
  by (simp add: index_at_def len_def)

lemma splat_loop_self: "splat_loop ps (pre @ ps @ rest) (len pre) = Inr True"
proof (induction ps arbitrary: pre)
  case Nil
  show ?case by simp
next
  case (Cons item ps)
  have step: "splat_loop ps (pre @ item # ps @ rest) (len pre + 1) = Inr True"
    using Cons.IH [of "pre @ [item]"] by (simp add: len_def add.commute)
  have pre: "slice_to item (strings_Index item CHR '':'') = Inr (take (nat (strings_Index item CHR '':'')) item)"
    if "strings_Index item CHR '':'' \<noteq> - 1"
    using that strings_Index_lower [of item "CHR '':''"] strings_Index_upper [of item "CHR '':''"]
    by (simp add: slice_to_def)
  have le: "nat (strings_Index item CHR '':'') \<le> length item"
    using strings_Index_upper [of item "CHR '':''"] by (simp add: len_def)
  show ?case
    by (simp add: Let_def index_at_append step pre strings_HasPrefix_def le min_absorb2)
qed

lemma pathMatchSplat_self:
  assumes "q \<noteq> []"
  shows "pathMatchSplat q q = Inr True"
proof (cases "last q = CHR ''/''")
  case True
  let ?segs = "strings_Split q CHR ''/''"
  let ?k = "nat (strings_Count q CHR ''/'' - 1)"
  have c: "1 \<le> strings_Count q CHR ''/''" using assms True by (rule strings_Count_last)
  have trimmed: "slice_to ?segs (strings_Count q CHR ''/'' - 1) = Inr (take ?k ?segs)"
    using c by (simp add: slice_to_def len_strings_Split)
  have "splat_loop (take ?k ?segs) ?segs 0 = Inr True"
    using splat_loop_self [of "take ?k ?segs" "[]" "drop ?k ?segs"] by (simp add: len_def)
  then show ?thesis
    using assms True c
    by (simp add: pathMatchSplat_def Let_def index_at_last trimmed len_strings_Split)
next
  case False
  let ?segs = "strings_Split q CHR ''/''"
  have "splat_loop ?segs ?segs 0 = Inr True"
    using splat_loop_self [of ?segs "[]" "[]"] by (simp add: len_def)
  then show ?thesis
    using assms False by (simp add: pathMatchSplat_def Let_def index_at_last)
qed

lemma pathMatch_self:
  assumes "q \<noteq> []"
  shows "pathMatch q q = Inr True"
proof (cases "strings_Contains q CHR '':''")
  case True
  then show ?thesis using assms by (simp add: pathMatch_def len_def pathMatchSplat_self)
next
  case False
  then show ?thesis
    using assms
    by (cases "last q = CHR ''/''")
       (simp_all add: pathMatch_def len_def pathMatchFlat_prefix pathMatchFlat_exact
          strings_HasPrefix_def)
qed

section \<open>The implicit redirect\<close>

lemma registered_snoc:
  "registered (calls @ [CallHandle p hdl]) = snd (Handle (registered calls) p hdl)"
  by (simp add: registered_def)

lemma Handle_fst_None:
  "fst (Handle mux p hdl) = None \<longleftrightarrow> p \<noteq> [] \<and> hdl \<noteq> None \<and> \<not> explicit (map_get mux p)"
proof (cases "p = [] \<or> hdl = None \<or> explicit (map_get mux p)")
  case True
  then show ?thesis using Handle_refused [of p hdl mux] by auto
next
  case False
  then show ?thesis by (simp add: Handle_accepted)
qed

text \<open>
  C7, as the code has it. After a \<open>Handle p\<close> that does not panic, with \<open>p\<close> ending
  in a slash and no explicit entry at \<open>p\<close> without its slash, the registry holds at
  the stripped pattern an entry that is not explicit, with the 301 redirect to \<open>p\<close>.
  When the stripped pattern is not empty, a following \<open>Handle\<close> of it with a handler
  does not panic and leaves an explicit entry with the new handler. \<open>match\<close> on the
  stripped path returns the stripped pattern with the handler of its entry (the redirect
  before, the new handler after) in every order of the scan, when the stripped pattern
  is not empty and every other registered pattern that matches the stripped path is
  strictly shorter.
\<close>

theorem implicit_redirect_entry:
  assumes "fst (Handle (registered calls) p (Some hd1)) = None"
    and "last p = CHR ''/''"
    and "\<not> explicit (map_get (registered calls) (butlast p))"
  shows
    "(let mux1 = snd (Handle (registered calls) p (Some hd1));
          mux2 = snd (Handle mux1 (butlast p) (Some hd2))
      in
      mux1 (butlast p) = Some \<lparr>explicit = False, h = Some (RedirectHandler p 301)\<rparr>
      \<and> (butlast p \<noteq> [] \<longrightarrow>
            fst (Handle mux1 (butlast p) (Some hd2)) = None
            \<and> mux2 (butlast p) = Some \<lparr>explicit = True, h = Some hd2\<rparr>)
      \<and> (butlast p \<noteq> [] \<and> range_order mux1 ks
           \<and> (\<forall>k \<in> dom mux1. k \<noteq> butlast p \<and> pathMatch k (butlast p) = Inr True
                  \<longrightarrow> length k < length (butlast p))
          \<longrightarrow> match mux1 ks (butlast p) = Inr (butlast p, Some (RedirectHandler p 301)))
      \<and> (butlast p \<noteq> [] \<and> range_order mux2 ks'
           \<and> (\<forall>k \<in> dom mux2. k \<noteq> butlast p \<and> pathMatch k (butlast p) = Inr True
                  \<longrightarrow> length k < length (butlast p))
          \<longrightarrow> match mux2 ks' (butlast p) = Inr (butlast p, Some hd2)))"
proof -
  define mux1 where "mux1 = snd (Handle (registered calls) p (Some hd1))"
  define q where "q = butlast p"
  define mux2 where "mux2 = snd (Handle mux1 q (Some hd2))"
  have ne: "p \<noteq> []" and fresh: "\<not> explicit (map_get (registered calls) p)"
    using assms(1) by (simp_all add: Handle_fst_None)
  have qp: "q \<noteq> p" unfolding q_def using ne by (rule butlast_neq)
  have m1: "mux1 = ((registered calls)(p \<mapsto> \<lparr>explicit = True, h = Some hd1\<rparr>))
                     (q \<mapsto> \<lparr>explicit = False, h = Some (RedirectHandler p 301)\<rparr>)"
    unfolding mux1_def q_def using ne fresh assms(2,3)
    by (simp add: Handle_accepted StatusMovedPermanently_def)
  have e1: "mux1 q = Some \<lparr>explicit = False, h = Some (RedirectHandler p 301)\<rparr>"
    by (simp add: m1)
  have r1: "mux1 = registered (calls @ [CallHandle p (Some hd1)])"
    by (simp add: mux1_def registered_snoc)
  have r2: "mux2 = registered ((calls @ [CallHandle p (Some hd1)]) @ [CallHandle q (Some hd2)])"
    unfolding registered_snoc [of "calls @ [CallHandle p (Some hd1)]"] mux2_def r1 ..
  have second: "fst (Handle mux1 q (Some hd2)) = None \<and> mux2 q = Some \<lparr>explicit = True, h = Some hd2\<rparr>"
    if "q \<noteq> []"
  proof -
    have ok: "\<not> explicit (map_get mux1 q)" by (simp add: map_get_def e1)
    have "butlast q \<noteq> q" using that by (rule butlast_neq)
    then show ?thesis
      using that ok unfolding mux2_def
      by (simp add: Handle_accepted)
  qed
  have res1: "match mux1 ks q = Inr (q, Some (RedirectHandler p 301))"
    if "q \<noteq> []" and "range_order mux1 ks"
      and "\<forall>k \<in> dom mux1. k \<noteq> q \<and> pathMatch k q = Inr True \<longrightarrow> length k < length q"
  proof -
    have ks: "set ks = dom mux1" using that(2) by (simp add: range_order_def)
    have hs: "\<And>k. k \<in> set ks \<Longrightarrow> h (map_get mux1 k) \<noteq> None"
      unfolding ks r1 by (rule registered_handlers)
    have "match mux1 ks q = Inr (q, h (map_get mux1 q))"
    proof (rule match_unique_longest [OF hs])
      show "q \<in> set ks" unfolding ks using e1 by auto
      show "pathMatch q q = Inr True" using that(1) by (rule pathMatch_self)
      show "length k' < length q" if "k' \<in> set ks" "k' \<noteq> q" "pathMatch k' q = Inr True" for k'
        using that \<open>\<forall>k \<in> dom mux1. k \<noteq> q \<and> pathMatch k q = Inr True \<longrightarrow> length k < length q\<close>
        unfolding ks by blast
    qed
    then show ?thesis by (simp add: map_get_def e1)
  qed
  have res2: "match mux2 ks' q = Inr (q, Some hd2)"
    if "q \<noteq> []" and "range_order mux2 ks'"
      and "\<forall>k \<in> dom mux2. k \<noteq> q \<and> pathMatch k q = Inr True \<longrightarrow> length k < length q"
  proof -
    have ks: "set ks' = dom mux2" using that(2) by (simp add: range_order_def)
    have hs: "\<And>k. k \<in> set ks' \<Longrightarrow> h (map_get mux2 k) \<noteq> None"
      unfolding ks r2 by (rule registered_handlers)
    have e2: "mux2 q = Some \<lparr>explicit = True, h = Some hd2\<rparr>" using second that(1) by simp
    have "match mux2 ks' q = Inr (q, h (map_get mux2 q))"
    proof (rule match_unique_longest [OF hs])
      show "q \<in> set ks'" unfolding ks using e2 by auto
      show "pathMatch q q = Inr True" using that(1) by (rule pathMatch_self)
      show "length k' < length q" if "k' \<in> set ks'" "k' \<noteq> q" "pathMatch k' q = Inr True" for k'
        using that \<open>\<forall>k \<in> dom mux2. k \<noteq> q \<and> pathMatch k q = Inr True \<longrightarrow> length k < length q\<close>
        unfolding ks by blast
    qed
    then show ?thesis by (simp add: map_get_def e2)
  qed
  show ?thesis
    unfolding Let_def mux1_def [symmetric] q_def [symmetric]
    unfolding mux2_def [symmetric]
    using e1 second res1 res2 by blast
qed

theorem implicit_redirect_entry_witness:
  "snd (Handle (registered []) ''/tree/'' (Some (Custom (1::nat)))) ''/tree''
     = Some \<lparr>explicit = False, h = Some (RedirectHandler ''/tree/'' 301)\<rparr>
   \<and> fst (Handle (snd (Handle (registered []) ''/tree/'' (Some (Custom (1::nat)))))
          ''/tree'' (Some (Custom 2))) = None
   \<and> snd (Handle (snd (Handle (registered []) ''/tree/'' (Some (Custom (1::nat)))))
          ''/tree'' (Some (Custom 2))) ''/tree''
     = Some \<lparr>explicit = True, h = Some (Custom 2)\<rparr>
   \<and> match (snd (Handle (registered []) ''/tree/'' (Some (Custom (1::nat)))))
        [''/tree/'', ''/tree''] ''/tree''
     = Inr (''/tree'', Some (RedirectHandler ''/tree/'' 301))
   \<and> match (snd (Handle (snd (Handle (registered []) ''/tree/'' (Some (Custom (1::nat)))))
          ''/tree'' (Some (Custom 2)))) [''/tree'', ''/tree/''] ''/tree''
     = Inr (''/tree'', Some (Custom 2))"
proof -
  let ?mux1 = "snd (Handle (registered []) ''/tree/'' (Some (Custom (1::nat))))"
  let ?mux2 = "snd (Handle ?mux1 ''/tree'' (Some (Custom 2)))"
  have m1: "?mux1 = [''/tree/'' \<mapsto> \<lparr>explicit = True, h = Some (Custom 1)\<rparr>,
                     ''/tree'' \<mapsto> \<lparr>explicit = False, h = Some (RedirectHandler ''/tree/'' 301)\<rparr>]"
    by (simp add: registered_def NewServeMux_def Handle_accepted map_get_def
        StatusMovedPermanently_def)
  have m2: "?mux2 = [''/tree/'' \<mapsto> \<lparr>explicit = True, h = Some (Custom 1)\<rparr>,
                     ''/tree'' \<mapsto> \<lparr>explicit = True, h = Some (Custom 2)\<rparr>]"
    unfolding m1 by (simp add: Handle_accepted map_get_def)
  have ok: "fst (Handle (registered []) ''/tree/'' (Some (Custom (1::nat)))) = None"
    by (simp add: registered_def NewServeMux_def Handle_accepted map_get_def)
  have fresh: "\<not> explicit (map_get (registered [] :: nat ServeMux) (butlast ''/tree/''))"
    by (simp add: registered_def NewServeMux_def map_get_def)
  have p: "pathMatch ''/tree/'' ''/tree'' = Inr False"
    by (simp add: pathMatch_def pathMatchFlat_def strings_Contains_def len_def index_at_def
        slice_to_def)
  have o1: "range_order ?mux1 [''/tree/'', ''/tree'']"
    unfolding m1 range_order_def by auto
  have o2: "range_order ?mux2 [''/tree'', ''/tree/'']"
    unfolding m2 range_order_def by auto
  have s1: "\<forall>k \<in> dom ?mux1. k \<noteq> ''/tree'' \<and> pathMatch k ''/tree'' = Inr True
              \<longrightarrow> length k < length ''/tree''"
    unfolding m1 using p by auto
  have s2: "\<forall>k \<in> dom ?mux2. k \<noteq> ''/tree'' \<and> pathMatch k ''/tree'' = Inr True
              \<longrightarrow> length k < length ''/tree''"
    unfolding m2 using p by auto
  from implicit_redirect_entry [of "[]" "''/tree/''" "Custom (1::nat)" "Custom 2"
      "[''/tree/'', ''/tree'']" "[''/tree'', ''/tree/'']", OF ok _ fresh]
  show ?thesis
    using o1 o2 s1 s2 by (simp add: Let_def)
qed

text \<open>
  Where C7 as stated fails. After \<open>Handle\<close> of \<open>/\<close> the stripped pattern is the empty
  string: the registry holds the redirect under it, but the empty pattern matches
  nothing, so \<open>match\<close> on the empty path finds no handler, and a \<open>Handle\<close> of the
  empty pattern panics. And with \<open>/:name\<close> registered, \<open>match\<close> on \<open>/tree\<close> returns
  the longer \<open>/:name\<close>, not the redirect under \<open>/tree\<close>.
\<close>

theorem implicit_redirect_entry_counterexample:
  "fst (Handle (registered []) ''/'' (Some (Custom (1::nat)))) = None
   \<and> snd (Handle (registered []) ''/'' (Some (Custom (1::nat)))) (butlast ''/'')
       = Some \<lparr>explicit = False, h = Some (RedirectHandler ''/'' 301)\<rparr>
   \<and> match (snd (Handle (registered []) ''/'' (Some (Custom (1::nat))))) [''/'', ''''] (butlast ''/'')
       = Inr ('''', None)
   \<and> match (snd (Handle (registered []) ''/'' (Some (Custom (1::nat))))) ['''', ''/''] (butlast ''/'')
       = Inr ('''', None)
   \<and> fst (Handle (snd (Handle (registered []) ''/'' (Some (Custom (1::nat)))))
          (butlast ''/'') (Some (Custom 2))) = Some (Panic ''http: invalid pattern '')
   \<and> fst (Handle (registered [CallHandle ''/:name'' (Some (Custom (1::nat)))])
          ''/tree/'' (Some (Custom 2))) = None
   \<and> snd (Handle (registered [CallHandle ''/:name'' (Some (Custom (1::nat)))])
          ''/tree/'' (Some (Custom 2))) ''/tree''
       = Some \<lparr>explicit = False, h = Some (RedirectHandler ''/tree/'' 301)\<rparr>
   \<and> match (snd (Handle (registered [CallHandle ''/:name'' (Some (Custom (1::nat)))])
          ''/tree/'' (Some (Custom 2)))) [''/tree'', ''/:name'', ''/tree/''] ''/tree''
       = Inr (''/:name'', Some (Custom 1))
   \<and> match (snd (Handle (registered [CallHandle ''/:name'' (Some (Custom (1::nat)))])
          ''/tree/'' (Some (Custom 2)))) [''/:name'', ''/tree/'', ''/tree''] ''/tree''
       = Inr (''/:name'', Some (Custom 1))"
proof -
  let ?root = "snd (Handle (registered []) ''/'' (Some (Custom (1::nat))))"
  let ?name = "snd (Handle (registered [CallHandle ''/:name'' (Some (Custom (1::nat)))])
          ''/tree/'' (Some (Custom 2)))"
  have r: "?root = [''/'' \<mapsto> \<lparr>explicit = True, h = Some (Custom 1)\<rparr>,
                    '''' \<mapsto> \<lparr>explicit = False, h = Some (RedirectHandler ''/'' 301)\<rparr>]"
    by (simp add: registered_def NewServeMux_def Handle_accepted map_get_def
        StatusMovedPermanently_def)
  have n: "?name = [''/:name'' \<mapsto> \<lparr>explicit = True, h = Some (Custom 1)\<rparr>,
                    ''/tree/'' \<mapsto> \<lparr>explicit = True, h = Some (Custom 2)\<rparr>,
                    ''/tree'' \<mapsto> \<lparr>explicit = False, h = Some (RedirectHandler ''/tree/'' 301)\<rparr>]"
    by (simp add: registered_def NewServeMux_def Handle_accepted map_get_def
        StatusMovedPermanently_def)
  have p: "pathMatch '''' '''' = Inr False" "pathMatch ''/'' '''' = Inr False"
    "pathMatch ''/tree'' ''/tree'' = Inr True" "pathMatch ''/tree/'' ''/tree'' = Inr False"
    by (simp_all add: pathMatch_def pathMatchFlat_def strings_Contains_def len_def index_at_def
        slice_to_def)
  have s: "pathMatch ''/:name'' ''/tree'' = Inr True"
    by (simp add: pathMatch_def pathMatchSplat_def strings_Contains_def len_def index_at_def
        slice_to_def)
  have a: "fst (Handle (registered []) ''/'' (Some (Custom (1::nat)))) = None"
    "fst (Handle (registered [CallHandle ''/:name'' (Some (Custom (1::nat)))])
          ''/tree/'' (Some (Custom 2))) = None"
    by (simp_all add: registered_def NewServeMux_def Handle_accepted map_get_def)
  have b: "fst (Handle ?root (butlast ''/'') (Some (Custom 2))) = Some (Panic ''http: invalid pattern '')"
    by (simp add: Handle_def)
  have "match ?root [''/'', ''''] (butlast ''/'') = Inr ('''', None)"
    "match ?root ['''', ''/''] (butlast ''/'') = Inr ('''', None)"
    unfolding r by (simp_all add: match_def p)
  moreover have "match ?name [''/tree'', ''/:name'', ''/tree/''] ''/tree'' = Inr (''/:name'', Some (Custom 1))"
    "match ?name [''/:name'', ''/tree/'', ''/tree''] ''/tree'' = Inr (''/:name'', Some (Custom 1))"
    unfolding n by (simp_all add: match_def p s map_get_def len_def)
  moreover have "?root (butlast ''/'') = Some \<lparr>explicit = False, h = Some (RedirectHandler ''/'' 301)\<rparr>"
    "?name ''/tree'' = Some \<lparr>explicit = False, h = Some (RedirectHandler ''/tree/'' 301)\<rparr>"
    unfolding r n by simp_all
  ultimately show ?thesis using a b by simp
qed

section \<open>Captures of a matched path\<close>

lemma Values_Add_keeps:
  assumes "v key = Some vs"
  shows "\<exists>vs'. Values_Add v k x key = Some vs' \<and> set vs \<subseteq> set vs'"
  using assms by (auto simp: Values_Add_def)

lemma Values_Add_binds: "\<exists>vs. Values_Add v k x k = Some vs \<and> x \<in> set vs"
  by (simp add: Values_Add_def)

text \<open>\<open>Add\<close> only appends: a value bound before the loop is still bound after it.\<close>

lemma parse_loop_keeps:
  assumes "parse_loop ps path' i v0 = Inr v" and "v0 key = Some vs0"
  shows "\<exists>vs. v key = Some vs \<and> set vs0 \<subseteq> set vs"
  using assms
proof (induction ps arbitrary: i v0 vs0)
  case Nil
  then show ?case by simp
next
  case (Cons item rest)
  let ?index = "strings_Index item CHR '':''"
  consider (none) "?index = - 1" | (bare) "?index = 0" | (prefixed) "?index \<noteq> - 1" "?index \<noteq> 0"
    by blast
  then show ?case
  proof cases
    case none
    then have "parse_loop rest path' (i + 1) v0 = Inr v" using Cons.prems(1) by simp
    then show ?thesis using Cons.prems(2) by (rule Cons.IH)
  next
    case bare
    then obtain seg where run: "parse_loop rest path' (i + 1) (Values_Add v0 item seg) = Inr v"
      using Cons.prems(1) by (auto split: sum.splits)
    obtain vs1 where "Values_Add v0 item seg key = Some vs1" and sub: "set vs0 \<subseteq> set vs1"
      using Values_Add_keeps [of v0 key vs0 item seg] Cons.prems(2) by blast
    then obtain vs where "v key = Some vs" and "set vs1 \<subseteq> set vs"
      using Cons.IH [OF run] by blast
    then show ?thesis using sub by auto
  next
    case prefixed
    then obtain name val where run: "parse_loop rest path' (i + 1) (Values_Add v0 name val) = Inr v"
      using Cons.prems(1) by (auto simp: Let_def split: sum.splits)
    obtain vs1 where "Values_Add v0 name val key = Some vs1" and sub: "set vs0 \<subseteq> set vs1"
      using Values_Add_keeps [of v0 key vs0 name val] Cons.prems(2) by blast
    then obtain vs where "v key = Some vs" and "set vs1 \<subseteq> set vs"
      using Cons.IH [OF run] by blast
    then show ?thesis using sub by auto
  qed
qed

text \<open>When the loop of \<open>parseSplats\<close> returns, every capture of the pattern is bound:
  a bare capture binds the whole segment of the pattern to the whole segment of the
  path, a prefixed capture binds the segment of the pattern from its marker on to the
  segment of the path from the same index on.\<close>

lemma parse_loop_binds:
  assumes "parse_loop ps path' i v0 = Inr v" and "0 \<le> i" and "j < length ps"
  shows "(strings_Index (ps ! j) CHR '':'' = 0 \<longrightarrow>
            (\<exists>vs. v (ps ! j) = Some vs \<and> path' ! (nat i + j) \<in> set vs))
       \<and> (0 < strings_Index (ps ! j) CHR '':'' \<longrightarrow>
            (\<exists>vs. v (drop (nat (strings_Index (ps ! j) CHR '':'')) (ps ! j)) = Some vs
                \<and> drop (nat (strings_Index (ps ! j) CHR '':'')) (path' ! (nat i + j)) \<in> set vs))"
  using assms
proof (induction ps arbitrary: i v0 j)
  case Nil
  then show ?case by simp
next
  case (Cons item rest)
  let ?index = "strings_Index item CHR '':''"
  show ?case
  proof (cases j)
    case (Suc j')
    obtain v1 where run: "parse_loop rest path' (i + 1) v1 = Inr v"
      using Cons.prems(1) by (auto simp: Let_def split: sum.splits if_splits)
    have "nat (i + 1) + j' = nat i + j" using Cons.prems(2) Suc by simp
    moreover have "j' < length rest" using Cons.prems(3) Suc by simp
    ultimately show ?thesis
      using Cons.IH [OF run, of j'] Cons.prems(2) Suc by simp
  next
    case 0
    consider (none) "?index = - 1" | (bare) "?index = 0" | (prefixed) "0 < ?index"
      using strings_Index_lower [of item "CHR '':''"] by fastforce
    then show ?thesis
    proof cases
      case none
      then show ?thesis using 0 by simp
    next
      case bare
      then have run: "parse_loop rest path' (i + 1) (Values_Add v0 item (path' ! nat i)) = Inr v"
        using Cons.prems(1) by (auto simp: index_at_def split: sum.splits if_splits)
      obtain vs1 where "Values_Add v0 item (path' ! nat i) item = Some vs1" and "path' ! nat i \<in> set vs1"
        using Values_Add_binds [of v0 item "path' ! nat i"] by blast
      then obtain vs where "v item = Some vs" and "path' ! nat i \<in> set vs"
        using parse_loop_keeps [OF run, of item vs1] by blast
      then show ?thesis using 0 bare by simp
    next
      case prefixed
      then have run: "parse_loop rest path' (i + 1)
          (Values_Add v0 (drop (nat ?index) item) (drop (nat ?index) (path' ! nat i))) = Inr v"
        using Cons.prems(1)
        by (auto simp: Let_def index_at_def slice_from_def split: sum.splits if_splits)
      obtain vs1 where
        "Values_Add v0 (drop (nat ?index) item) (drop (nat ?index) (path' ! nat i))
           (drop (nat ?index) item) = Some vs1"
        and "drop (nat ?index) (path' ! nat i) \<in> set vs1"
        using Values_Add_binds [of v0 "drop (nat ?index) item" "drop (nat ?index) (path' ! nat i)"]
        by blast
      then obtain vs where "v (drop (nat ?index) item) = Some vs"
        and "drop (nat ?index) (path' ! nat i) \<in> set vs"
        using parse_loop_keeps [OF run, of "drop (nat ?index) item" vs1] by blast
      then show ?thesis using 0 prefixed by simp
    qed
  qed
qed

lemma parseSplats_binds:
  assumes "parseSplats p s = Inr (Some v)" and "j < length (strings_Split p CHR ''/'')"
  shows "(strings_Index (strings_Split p CHR ''/'' ! j) CHR '':'' = 0 \<longrightarrow>
            (\<exists>vs. v (strings_Split p CHR ''/'' ! j) = Some vs
                \<and> strings_Split s CHR ''/'' ! j \<in> set vs))
       \<and> (0 < strings_Index (strings_Split p CHR ''/'' ! j) CHR '':'' \<longrightarrow>
            (\<exists>vs. v (drop (nat (strings_Index (strings_Split p CHR ''/'' ! j) CHR '':''))
                       (strings_Split p CHR ''/'' ! j)) = Some vs
                \<and> drop (nat (strings_Index (strings_Split p CHR ''/'' ! j) CHR '':''))
                     (strings_Split s CHR ''/'' ! j) \<in> set vs))"
proof -
  have "parse_loop (strings_Split p CHR ''/'') (strings_Split s CHR ''/'') 0 Map.empty = Inr v"
    using assms(1) by (auto simp: parseSplats_def Let_def split: if_splits sum.splits)
  from parse_loop_binds [OF this _ assms(2)] show ?thesis by simp
qed

text \<open>Without a capture marker \<open>parseSplats\<close> returns the nil map.\<close>

lemma parseSplats_flat: "\<not> strings_Contains p CHR '':'' \<Longrightarrow> parseSplats p s = Inr None"
  by (simp add: parseSplats_def)

text \<open>Where every segment of the pattern has been compared with the path, the loop of
  \<open>parseSplats\<close> returns.\<close>

lemma parse_loop_total:
  assumes "splat_loop ps path' i = Inr True" and "0 \<le> i" and "i + len ps \<le> len path'"
  shows "\<exists>v. parse_loop ps path' i v0 = Inr v"
  using assms
proof (induction ps arbitrary: i v0)
  case Nil
  show ?case by simp
next
  case (Cons item rest)
  let ?index = "strings_Index item CHR '':''"
  have at: "index_at path' i = Inr (path' ! nat i)"
    using Cons.prems(2,3) by (simp add: index_at_def len_def)
  have bounds: "0 \<le> i + 1" "i + 1 + len rest \<le> len path'"
    using Cons.prems(2,3) by (simp_all add: len_def)
  have item: "slice_to item ?index = Inr (take (nat ?index) item)"
    and name: "slice_from item ?index = Inr (drop (nat ?index) item)"
    if "?index \<noteq> - 1"
    using that strings_Index_lower [of item "CHR '':''"] strings_Index_upper [of item "CHR '':''"]
    by (simp_all add: slice_to_def slice_from_def)
  have rest: "splat_loop rest path' (i + 1) = Inr True"
    using Cons.prems(1) by (auto simp: Let_def at item split: if_splits)
  have run: "\<exists>v. parse_loop rest path' (i + 1) v1 = Inr v" for v1
    using rest bounds by (rule Cons.IH)
  consider (none) "?index = - 1" | (bare) "?index = 0" | (prefixed) "0 < ?index"
    using strings_Index_lower [of item "CHR '':''"] by fastforce
  then show ?case
  proof cases
    case none
    then show ?thesis using run by simp
  next
    case bare
    then show ?thesis using run by (simp add: at)
  next
    case prefixed
    then have "strings_HasPrefix (path' ! nat i) (take (nat ?index) item)"
      using Cons.prems(1) by (auto simp: Let_def at item split: if_splits)
    moreover have "length (take (nat ?index) item) = nat ?index"
      using strings_Index_upper [of item "CHR '':''"] by (simp add: len_def)
    ultimately have "?index \<le> len (path' ! nat i)"
      using prefixed by (simp add: strings_HasPrefix_def len_def nat_le_iff)
    then have "slice_from (path' ! nat i) ?index = Inr (drop (nat ?index) (path' ! nat i))"
      using prefixed by (simp add: slice_from_def)
    then show ?thesis using prefixed run by (simp add: Let_def at name)
  qed
qed

text \<open>So for a pattern with captures that does not end in a slash, \<open>parseSplats\<close>
  returns a map on every path the pattern matches.\<close>

lemma parseSplats_exact_total:
  assumes "strings_Contains p CHR '':''" and "last p \<noteq> CHR ''/''"
    and "pathMatch p s = Inr True"
  shows "\<exists>v. parseSplats p s = Inr (Some v)"
proof -
  have ne: "p \<noteq> []" using assms(1) by (auto simp: strings_Contains_def)
  have m: "pathMatchSplat p s = Inr True"
    using assms ne by (simp add: pathMatch_def len_def)
  have c: "strings_Count s CHR ''/'' = strings_Count p CHR ''/''"
    using m ne assms(2) by (auto simp: pathMatchSplat_def Let_def index_at_last split: if_splits)
  have l: "splat_loop (strings_Split p CHR ''/'') (strings_Split s CHR ''/'') 0 = Inr True"
    using m ne assms(2) by (auto simp: pathMatchSplat_def Let_def index_at_last split: if_splits)
  have "\<exists>v. parse_loop (strings_Split p CHR ''/'') (strings_Split s CHR ''/'') 0 Map.empty = Inr v"
    using l by (rule parse_loop_total) (simp_all add: len_strings_Split c)
  then show ?thesis using assms(1) by (auto simp: parseSplats_def)
qed

subsection \<open>Where a matched path makes the extraction panic\<close>

text \<open>
  C3 at concrete requests. The pattern \<open>/x/user-:id/\<close> matches the path \<open>/x/a\<close>,
  because the cut in \<open>pathMatchSplat\<close> leaves the segment \<open>user-:id\<close> unchecked;
  \<open>parseSplats\<close> then slices the segment \<open>a\<close> from index 5 and panics, and so does
  \<open>handler\<close> for that request. A pattern that names a host with a port matches the
  host and path joined, but \<open>parseSplats\<close> is given the path alone, whose first segment
  is empty: it panics as well.
\<close>

theorem handler_panics_on_matched_path:
  "pathMatch ''/x/user-:id/'' ''/x/a'' = Inr True
   \<and> parseSplats ''/x/user-:id/'' ''/x/a'' = Inl SliceBoundsOutOfRange
   \<and> handler Encode (registered [CallHandle ''/x/user-:id/'' (Some a)])
        [''/x/user-:id/'', ''/x/user-:id''] [''/x/user-:id'', ''/x/user-:id/'']
        \<lparr>Method = ''GET'', Host = ''example.com'', URL_Path = ''/x/a'', URL_RawQuery = ''''\<rparr>
       = Inl SliceBoundsOutOfRange
   \<and> pathMatch ''localhost:8000/hello'' (''localhost:8000'' @ ''/hello'') = Inr True
   \<and> handler Encode (registered [CallHandle ''localhost:8000/hello'' (Some a)])
        [''localhost:8000/hello''] [''localhost:8000/hello'']
        \<lparr>Method = ''GET'', Host = ''localhost:8000'', URL_Path = ''/hello'', URL_RawQuery = ''''\<rparr>
       = Inl SliceBoundsOutOfRange"
proof -
  have m: "registered [CallHandle ''/x/user-:id/'' (Some a)]
      = [''/x/user-:id/'' \<mapsto> \<lparr>explicit = True, h = Some a\<rparr>,
         ''/x/user-:id'' \<mapsto> \<lparr>explicit = False, h = Some (RedirectHandler ''/x/user-:id/'' 301)\<rparr>]"
    by (simp add: registered_def NewServeMux_def Handle_accepted map_get_def
        StatusMovedPermanently_def)
  have l: "registered [CallHandle ''localhost:8000/hello'' (Some a)]
      = [''localhost:8000/hello'' \<mapsto> \<lparr>explicit = True, h = Some a\<rparr>]"
    by (simp add: registered_def NewServeMux_def Handle_accepted map_get_def)
  have p: "pathMatch ''/x/user-:id/'' ''/x/a'' = Inr True"
    "pathMatch ''/x/user-:id'' ''/x/a'' = Inr False"
    "pathMatch ''/x/user-:id/'' ''example.com/x/a'' = Inr False"
    "pathMatch ''/x/user-:id'' ''example.com/x/a'' = Inr False"
    "pathMatch ''localhost:8000/hello'' ''localhost:8000/hello'' = Inr True"
    by (simp_all add: pathMatch_def pathMatchSplat_def strings_Contains_def len_def index_at_def
        slice_to_def strings_HasPrefix_def)
  have s: "parseSplats ''/x/user-:id/'' ''/x/a'' = Inl SliceBoundsOutOfRange"
    "parseSplats ''localhost:8000/hello'' ''/hello'' = Inl SliceBoundsOutOfRange"
    by (simp_all add: parseSplats_def strings_Contains_def len_def index_at_def slice_from_def)
  have "handler Encode (registered [CallHandle ''/x/user-:id/'' (Some a)])
        [''/x/user-:id/'', ''/x/user-:id''] [''/x/user-:id'', ''/x/user-:id/'']
        \<lparr>Method = ''GET'', Host = ''example.com'', URL_Path = ''/x/a'', URL_RawQuery = ''''\<rparr>
       = Inl SliceBoundsOutOfRange"
    unfolding m by (simp add: handler_def match_def p s map_get_def len_def)
  moreover have "handler Encode (registered [CallHandle ''localhost:8000/hello'' (Some a)])
        [''localhost:8000/hello''] [''localhost:8000/hello'']
        \<lparr>Method = ''GET'', Host = ''localhost:8000'', URL_Path = ''/hello'', URL_RawQuery = ''''\<rparr>
       = Inl SliceBoundsOutOfRange"
    unfolding l by (simp add: handler_def match_def p s map_get_def len_def)
  ultimately show ?thesis using p s by simp
qed

text \<open>
  C5 at a concrete input: \<open>/files/ver-:n/\<close> matches \<open>/files/x\<close>, and the capture
  \<open>:n\<close> is not bound: \<open>parseSplats\<close> panics on the slice of \<open>x\<close> from index 4.
\<close>

theorem parseSplats_panics_on_matched_path:
  "strings_Contains ''/files/ver-:n/'' CHR '':''
   \<and> pathMatch ''/files/ver-:n/'' ''/files/x'' = Inr True
   \<and> strings_Index ''ver-:n'' CHR '':'' = 4
   \<and> parseSplats ''/files/ver-:n/'' ''/files/x'' = Inl SliceBoundsOutOfRange"
  by (simp add: pathMatch_def pathMatchSplat_def parseSplats_def strings_Contains_def len_def
      index_at_def slice_to_def slice_from_def strings_HasPrefix_def)

end
